theory Spec2Isabelle
  imports Main
begin

section \<open>Tiles and their textual forms\<close>

datatype Tile = EMPTY | PLAYER | WALL | BOX

datatype BackgroundTile = BG_EMPTY | TARGET

text \<open>
  The exceptions the program can raise: the two built-in ones that indexing, unpacking
  and \<^verbatim>\<open>int\<close> raise, and the two \<^verbatim>\<open>Exception\<close> values of the tile parsers, which
  carry the offending character.
\<close>

datatype error = IndexError | ValueError | InvalidTile char | InvalidBackgroundTile char

definition parse_tile :: "char \<Rightarrow> error + Tile" where
  "parse_tile c =
     (if c = CHR ''.'' then Inr EMPTY
      else if c = CHR ''p'' then Inr PLAYER
      else if c = CHR ''#'' then Inr WALL
      else if c = CHR ''x'' then Inr BOX
      else Inl (InvalidTile c))"

definition parse_background_tile :: "char \<Rightarrow> error + BackgroundTile" where
  "parse_background_tile c =
     (if c = CHR ''.'' then Inr BG_EMPTY
      else if c = CHR ''o'' then Inr TARGET
      else Inl (InvalidBackgroundTile c))"

section \<open>Python lists: indexing, item assignment, slices, ranges\<close>

text \<open>
  \<^verbatim>\<open>a[i]\<close>: a negative index counts from the end, an index outside the list raises
  \<^verbatim>\<open>IndexError\<close>.
\<close>

definition norm_index :: "'a list \<Rightarrow> int \<Rightarrow> error + nat" where
  "norm_index a i =
     (if i < 0 then
        (if - i \<le> int (length a) then Inr (nat (int (length a) + i)) else Inl IndexError)
      else
        (if i < int (length a) then Inr (nat i) else Inl IndexError))"

definition getitem :: "'a list \<Rightarrow> int \<Rightarrow> error + 'a" where
  "getitem a i = (case norm_index a i of Inl e \<Rightarrow> Inl e | Inr k \<Rightarrow> Inr (a ! k))"

definition setitem :: "'a list \<Rightarrow> int \<Rightarrow> 'a \<Rightarrow> error + 'a list" where
  "setitem a i v = (case norm_index a i of Inl e \<Rightarrow> Inl e | Inr k \<Rightarrow> Inr (a[k := v]))"

text \<open>\<^verbatim>\<open>range(n)\<close> is \<open>0, \<dots>, n - 1\<close>, empty when \<open>n \<le> 0\<close>.\<close>

definition py_range :: "int \<Rightarrow> int list" where
  "py_range n = [0..n - 1]"

text \<open>\<^verbatim>\<open>a[i:j]\<close>: both bounds are clamped to the list, negative ones counted from the end.\<close>

definition clamp_bound :: "nat \<Rightarrow> int \<Rightarrow> nat" where
  "clamp_bound n i = (if i < 0 then nat (max (int n + i) 0) else min (nat i) n)"

definition py_slice :: "'a list \<Rightarrow> int \<Rightarrow> int \<Rightarrow> 'a list" where
  "py_slice a i j =
     (let lo = clamp_bound (length a) i; hi = clamp_bound (length a) j
      in take (hi - lo) (drop lo a))"

section \<open>Vector2\<close>

datatype Vector2 = Vector2 (vx: int) (vy: int)

definition access :: "Vector2 \<Rightarrow> 'a list list \<Rightarrow> error + 'a" where
  "access v a = (case getitem a (vx v) of Inl e \<Rightarrow> Inl e | Inr row \<Rightarrow> getitem row (vy v))"

text \<open>
  \<^verbatim>\<open>a[self.x][self.y] = val\<close> writes into the row object \<^verbatim>\<open>a[self.x]\<close>. With the grid
  held by value, the updated row is put back at the index it was read from.
\<close>

definition set_vec :: "Vector2 \<Rightarrow> 'a list list \<Rightarrow> 'a \<Rightarrow> error + 'a list list" where
  "set_vec v a val =
     (case getitem a (vx v) of Inl e \<Rightarrow> Inl e
      | Inr row \<Rightarrow>
          (case setitem row (vy v) val of Inl e \<Rightarrow> Inl e
           | Inr row' \<Rightarrow> setitem a (vx v) row'))"

definition add :: "Vector2 \<Rightarrow> Vector2 \<Rightarrow> Vector2" where
  "add p q = Vector2 (vx p + vx q) (vy p + vy q)"

definition UP :: Vector2 where "UP = Vector2 (- 1) 0"
definition DOWN :: Vector2 where "DOWN = Vector2 1 0"
definition LEFT :: Vector2 where "LEFT = Vector2 0 (- 1)"
definition RIGHT :: Vector2 where "RIGHT = Vector2 0 1"

definition CAN_MULTIPUSH :: bool where
  "CAN_MULTIPUSH = False"

section \<open>State\<close>

record State =
  tiles :: "Tile list list"
  background :: "BackgroundTile list list"
  length_st :: int
  width_st :: int

text \<open>\<^verbatim>\<open>State.__init__\<close>: \<^verbatim>\<open>len(tiles[0])\<close> raises on an empty list of rows.\<close>

definition State_init :: "Tile list list \<Rightarrow> BackgroundTile list list \<Rightarrow> error + State" where
  "State_init ts bs =
     (case getitem ts 0 of Inl e \<Rightarrow> Inl e
      | Inr row0 \<Rightarrow>
          Inr \<lparr>tiles = ts, background = bs,
               length_st = int (length ts), width_st = int (length row0)\<rparr>)"

definition is_inbounds :: "State \<Rightarrow> Vector2 \<Rightarrow> bool" where
  "is_inbounds s p \<longleftrightarrow> 0 \<le> vx p \<and> vx p < length_st s \<and> 0 \<le> vy p \<and> vy p < width_st s"

definition positions :: "State \<Rightarrow> Vector2 list" where
  "positions s = concat (map (\<lambda>i. map (\<lambda>j. Vector2 i j) (py_range (width_st s))) (py_range (length_st s)))"

text \<open>
  The two writes that end \<^verbatim>\<open>move_box\<close> and \<^verbatim>\<open>move_player\<close>: the cell left becomes
  \<^verbatim>\<open>EMPTY\<close>, the cell entered takes the mover.
\<close>

definition shift_tile :: "State \<Rightarrow> Vector2 \<Rightarrow> Vector2 \<Rightarrow> Tile \<Rightarrow> error + (bool \<times> State)" where
  "shift_tile s src dst t =
     (case set_vec src (tiles s) EMPTY of Inl e \<Rightarrow> Inl e
      | Inr ts1 \<Rightarrow>
          (case set_vec dst ts1 t of Inl e \<Rightarrow> Inl e
           | Inr ts2 \<Rightarrow> Inr (True, s\<lparr>tiles := ts2\<rparr>)))"

text \<open>
  \<^verbatim>\<open>State.move_box\<close>. The result is the returned boolean and the state after the call;
  \<^verbatim>\<open>not CAN_MULTIPUSH or not self.move_box(...)\<close> evaluates its second operand only when
  the first is false.
\<close>

function move_box :: "State \<Rightarrow> Vector2 \<Rightarrow> Vector2 \<Rightarrow> error + (bool \<times> State)" where
  "move_box s box_pos direction =
     (let target = add box_pos direction in
      if \<not> is_inbounds s target then Inr (False, s)
      else case access target (tiles s) of Inl e \<Rightarrow> Inl e
        | Inr t \<Rightarrow>
            if t = WALL then Inr (False, s)
            else if t = BOX then
              (if \<not> CAN_MULTIPUSH then Inr (False, s)
               else case move_box s target direction of Inl e \<Rightarrow> Inl e
                 | Inr (ok, s') \<Rightarrow>
                     if \<not> ok then Inr (False, s')
                     else shift_tile s' box_pos target BOX)
            else shift_tile s box_pos target BOX)"
  by pat_completeness auto
termination
  by (relation "{}") (auto simp: CAN_MULTIPUSH_def)

declare move_box.simps [simp del]

definition move_player :: "State \<Rightarrow> Vector2 \<Rightarrow> Vector2 \<Rightarrow> error + (bool \<times> State)" where
  "move_player s player_pos direction =
     (let target = add player_pos direction in
      if \<not> is_inbounds s target then Inr (False, s)
      else case access target (tiles s) of Inl e \<Rightarrow> Inl e
        | Inr t \<Rightarrow>
            if t = WALL then Inr (False, s)
            else if t = BOX then
              (case move_box s target direction of Inl e \<Rightarrow> Inl e
               | Inr (ok, s') \<Rightarrow>
                   if \<not> ok then Inr (False, s')
                   else shift_tile s' player_pos target PLAYER)
            else shift_tile s player_pos target PLAYER)"

text \<open>
  \<^verbatim>\<open>State.win\<close>: the inner loop over the columns of row \<open>i\<close>, then the outer loop over
  the rows. \<open>Inr False\<close> is the early \<^verbatim>\<open>return False\<close>; the background is read only
  where the tile is a box.
\<close>

fun win_cols :: "State \<Rightarrow> int \<Rightarrow> int list \<Rightarrow> error + bool" where
  "win_cols s i [] = Inr True"
| "win_cols s i (j # js) =
     (case access (Vector2 i j) (tiles s) of Inl e \<Rightarrow> Inl e
      | Inr t \<Rightarrow>
          if t = BOX then
            (case access (Vector2 i j) (background s) of Inl e \<Rightarrow> Inl e
             | Inr b \<Rightarrow> if b \<noteq> TARGET then Inr False else win_cols s i js)
          else win_cols s i js)"

fun win_rows :: "State \<Rightarrow> int list \<Rightarrow> error + bool" where
  "win_rows s [] = Inr True"
| "win_rows s (i # is) =
     (case win_cols s i (py_range (width_st s)) of Inl e \<Rightarrow> Inl e
      | Inr ok \<Rightarrow> if ok then win_rows s is else Inr False)"

definition win :: "State \<Rightarrow> error + bool" where
  "win s = win_rows s (py_range (length_st s))"

section \<open>Game: the history of snapshots\<close>

text \<open>
  \<^verbatim>\<open>Game.state\<close> is a list of references to \<^verbatim>\<open>State\<close> objects, and \<^verbatim>\<open>move\<close> mutates
  one of them in place. The store holds one cell per \<^verbatim>\<open>State\<close> object, the grids of
  the object included: \<^verbatim>\<open>parse_level\<close> builds every row as a new list and
  \<^verbatim>\<open>deepcopy\<close> copies every list it reaches, so no list is shared between two
  \<^verbatim>\<open>State\<close> objects or between two rows. An address is an index into the store, and
  allocation appends a cell. The section on objects and references below takes the
  lists apart into objects of their own, and the runs on that heap are proved to
  compute this store.
\<close>

type_synonym addr = nat

type_synonym store = "State list"

record Game =
  state :: "addr list"

definition Game_init :: "addr \<Rightarrow> Game" where
  "Game_init initial_state = \<lparr>state = [initial_state]\<rparr>"

text \<open>\<^verbatim>\<open>deepcopy\<close> allocates a new object, equal in value to the one copied.\<close>

definition deepcopy :: "store \<Rightarrow> addr \<Rightarrow> store \<times> addr" where
  "deepcopy h a = (h @ [h ! a], length h)"

text \<open>
  The loop of \<^verbatim>\<open>Game.move\<close> over \<^verbatim>\<open>state_copy.positions()\<close>: the copy is threaded
  through the calls of \<^verbatim>\<open>move_player\<close>, and the loop ends at the first player that moves.
\<close>

fun move_scan :: "State \<Rightarrow> Vector2 list \<Rightarrow> Vector2 \<Rightarrow> error + (bool \<times> State)" where
  "move_scan sc [] direction = Inr (False, sc)"
| "move_scan sc (p # ps) direction =
     (case access p (tiles sc) of Inl e \<Rightarrow> Inl e
      | Inr t \<Rightarrow>
          if t = PLAYER then
            (case move_player sc p direction of Inl e \<Rightarrow> Inl e
             | Inr (ok, sc') \<Rightarrow>
                 if ok then Inr (True, sc') else move_scan sc' ps direction)
          else move_scan sc ps direction)"

definition move :: "store \<Rightarrow> Game \<Rightarrow> Vector2 \<Rightarrow> error + (bool \<times> store \<times> Game)" where
  "move h g direction =
     (case getitem (state g) (- 1) of Inl e \<Rightarrow> Inl e
      | Inr a \<Rightarrow>
          (let (h1, c) = deepcopy h a in
           case move_scan (h1 ! c) (positions (h1 ! c)) direction of Inl e \<Rightarrow> Inl e
           | Inr (ok, sc) \<Rightarrow>
               if ok then Inr (True, h1[c := sc], g\<lparr>state := state g @ [c]\<rparr>)
               else Inr (False, h1[c := sc], g)))"

definition undo :: "Game \<Rightarrow> bool \<times> Game" where
  "undo g =
     (if length (state g) > 1 then (True, g\<lparr>state := butlast (state g)\<rparr>)
      else (False, g))"

text \<open>\<^verbatim>\<open>game.state[-1]\<close>, the snapshot the main loop draws and tests.\<close>

definition current :: "store \<Rightarrow> Game \<Rightarrow> error + State" where
  "current h g = (case getitem (state g) (- 1) of Inl e \<Rightarrow> Inl e | Inr a \<Rightarrow> Inr (h ! a))"

text \<open>
  The commands the main loop dispatches, and a run of them: the booleans returned, the
  store and the game at the end. An exception ends the run, as it ends the program.
\<close>

datatype command = Move Vector2 | Undo

fun run :: "store \<Rightarrow> Game \<Rightarrow> command list \<Rightarrow> error + (bool list \<times> store \<times> Game)" where
  "run h g [] = Inr ([], h, g)"
| "run h g (Move d # cs) =
     (case move h g d of Inl e \<Rightarrow> Inl e
      | Inr (ok, h', g') \<Rightarrow>
          (case run h' g' cs of Inl e \<Rightarrow> Inl e
           | Inr (oks, h'', g'') \<Rightarrow> Inr (ok # oks, h'', g'')))"
| "run h g (Undo # cs) =
     (case undo g of (ok, g') \<Rightarrow>
        (case run h g' cs of Inl e \<Rightarrow> Inl e
         | Inr (oks, h'', g'') \<Rightarrow> Inr (ok # oks, h'', g'')))"

section \<open>Level texts\<close>

text \<open>
  A \<^verbatim>\<open>str\<close> is a list of characters; the characters are those with a code point below
  256, which covers the level grammar. Among them, \<^verbatim>\<open>splitlines\<close> breaks a line at
  LF, VT, FF, CR (CR LF counting once), FS, GS, RS and NEL, \<^verbatim>\<open>split()\<close> separates at
  these and at TAB, US, space and NBSP, and the decimal digits are \<open>0\<close> to \<open>9\<close>.
\<close>

definition is_linebreak :: "char \<Rightarrow> bool" where
  "is_linebreak c \<longleftrightarrow> c \<in> set [CHR 0x0A, CHR 0x0B, CHR 0x0C, CHR 0x0D, CHR 0x1C, CHR 0x1D, CHR 0x1E, CHR 0x85]"

definition is_space :: "char \<Rightarrow> bool" where
  "is_space c \<longleftrightarrow> is_linebreak c \<or> c \<in> set [CHR 0x09, CHR 0x1F, CHR 0x20, CHR 0xA0]"

fun splitlines_from :: "string \<Rightarrow> string \<Rightarrow> string list" where
  "splitlines_from cur [] = (if cur = [] then [] else [cur])"
| "splitlines_from cur (c # cs) =
     (if c = CHR 0x0D then
        (case cs of
           [] \<Rightarrow> [cur]
         | c' # cs' \<Rightarrow> if c' = CHR 0x0A then cur # splitlines_from [] cs'
                       else cur # splitlines_from [] cs)
      else if is_linebreak c then cur # splitlines_from [] cs
      else splitlines_from (cur @ [c]) cs)"

definition splitlines :: "string \<Rightarrow> string list" where
  "splitlines txt = splitlines_from [] txt"

fun split_from :: "string \<Rightarrow> string \<Rightarrow> string list" where
  "split_from cur [] = (if cur = [] then [] else [cur])"
| "split_from cur (c # cs) =
     (if is_space c then (if cur = [] then split_from [] cs else cur # split_from [] cs)
      else split_from (cur @ [c]) cs)"

definition split :: "string \<Rightarrow> string list" where
  "split txt = split_from [] txt"

text \<open>\<^verbatim>\<open>sep.join(parts)\<close>.\<close>

fun join :: "string \<Rightarrow> string list \<Rightarrow> string" where
  "join sep [] = []"
| "join sep [p] = p"
| "join sep (p # q # ps) = p @ sep @ join sep (q # ps)"

text \<open>
  \<^verbatim>\<open>int(tok)\<close> on a token without whitespace: an optional sign, then decimal digits,
  single underscores allowed between two digits; anything else raises \<^verbatim>\<open>ValueError\<close>.
  The interpreter's configurable limit on the number of digits is not modelled.
\<close>

definition is_digit :: "char \<Rightarrow> bool" where
  "is_digit c \<longleftrightarrow> c \<in> set ''0123456789''"

definition digit_val :: "char \<Rightarrow> nat" where
  "digit_val c = of_char c - of_char (CHR ''0'')"

fun int_digits :: "nat \<Rightarrow> bool \<Rightarrow> string \<Rightarrow> error + nat" where
  "int_digits acc after_digit [] = (if after_digit then Inr acc else Inl ValueError)"
| "int_digits acc after_digit (c # cs) =
     (if is_digit c then int_digits (acc * 10 + digit_val c) True cs
      else if c = CHR ''_'' \<and> after_digit then int_digits acc False cs
      else Inl ValueError)"

definition py_int :: "string \<Rightarrow> error + int" where
  "py_int tok =
     (case tok of
        [] \<Rightarrow> Inl ValueError
      | c # cs \<Rightarrow>
          if c = CHR ''-'' then
            (case int_digits 0 False cs of Inl e \<Rightarrow> Inl e | Inr n \<Rightarrow> Inr (- int n))
          else if c = CHR ''+'' then
            (case int_digits 0 False cs of Inl e \<Rightarrow> Inl e | Inr n \<Rightarrow> Inr (int n))
          else
            (case int_digits 0 False tok of Inl e \<Rightarrow> Inl e | Inr n \<Rightarrow> Inr (int n)))"

text \<open>\<^verbatim>\<open>list(map(f, xs))\<close> where \<open>f\<close> may raise: the first exception ends the traversal.\<close>

fun map_raise :: "('a \<Rightarrow> error + 'b) \<Rightarrow> 'a list \<Rightarrow> error + 'b list" where
  "map_raise f [] = Inr []"
| "map_raise f (x # xs) =
     (case f x of Inl e \<Rightarrow> Inl e
      | Inr y \<Rightarrow> (case map_raise f xs of Inl e \<Rightarrow> Inl e | Inr ys \<Rightarrow> Inr (y # ys)))"

text \<open>The body of the \<^verbatim>\<open>try\<close> block of \<^verbatim>\<open>parse_level\<close>.\<close>

definition parse_level_try :: "string \<Rightarrow> error + State" where
  "parse_level_try level_str =
     (let lines = splitlines level_str in
      case getitem lines 0 of Inl e \<Rightarrow> Inl e
      | Inr header \<Rightarrow>
          (case map_raise py_int (split header) of Inl e \<Rightarrow> Inl e
           | Inr [len, wid] \<Rightarrow>
               (case map_raise (map_raise parse_tile) (py_slice lines 1 (len + 1)) of
                  Inl e \<Rightarrow> Inl e
                | Inr ts \<Rightarrow>
                    (case map_raise (map_raise parse_background_tile)
                            (py_slice lines (len + 1) (len * 2 + 1)) of
                       Inl e \<Rightarrow> Inl e
                     | Inr bs \<Rightarrow> State_init ts bs))
           | Inr _ \<Rightarrow> Inl ValueError))"

text \<open>\<^verbatim>\<open>except Exception\<close> turns every exception of the body into \<^verbatim>\<open>None\<close>.\<close>

definition parse_level :: "string \<Rightarrow> State option" where
  "parse_level level_str =
     (case parse_level_try level_str of Inl e \<Rightarrow> None | Inr s \<Rightarrow> Some s)"

section \<open>Objects and references\<close>

text \<open>
  The same program with every list as an object of its own. A \<^verbatim>\<open>State\<close> object holds
  references to its two lists of rows, a list of rows holds references to its rows, and
  \<^verbatim>\<open>a[self.x][self.y] = val\<close> writes into the row object that the reference leads to.
  The heap has one store per class of object: rows of tiles, rows of markings, lists
  of references and \<^verbatim>\<open>State\<close> objects; a reference is an index into the store of its
  class, and allocation appends.
\<close>

type_synonym ref = nat

datatype state_obj = StateObj (tiles_ref: ref) (background_ref: ref) (length_of: int) (width_of: int)

record heap =
  tile_rows :: "Tile list list"
  mark_rows :: "BackgroundTile list list"
  ref_lists :: "ref list list"
  state_objs :: "state_obj list"

text \<open>The rows that \<^verbatim>\<open>self.tiles\<close> and \<^verbatim>\<open>self.background\<close> refer to.\<close>

definition tile_refs :: "heap \<Rightarrow> ref \<Rightarrow> ref list" where
  "tile_refs h s = ref_lists h ! tiles_ref (state_objs h ! s)"

definition mark_refs :: "heap \<Rightarrow> ref \<Rightarrow> ref list" where
  "mark_refs h s = ref_lists h ! background_ref (state_objs h ! s)"

text \<open>\<^verbatim>\<open>p.access(self.tiles)\<close> and \<^verbatim>\<open>p.set(self.tiles, val)\<close>, through the references.\<close>

definition access_ref :: "heap \<Rightarrow> ref \<Rightarrow> Vector2 \<Rightarrow> error + Tile" where
  "access_ref h s p =
     (case getitem (tile_refs h s) (vx p) of Inl e \<Rightarrow> Inl e
      | Inr r \<Rightarrow> getitem (tile_rows h ! r) (vy p))"

definition set_ref :: "heap \<Rightarrow> ref \<Rightarrow> Vector2 \<Rightarrow> Tile \<Rightarrow> error + heap" where
  "set_ref h s p val =
     (case getitem (tile_refs h s) (vx p) of Inl e \<Rightarrow> Inl e
      | Inr r \<Rightarrow>
          (case setitem (tile_rows h ! r) (vy p) val of Inl e \<Rightarrow> Inl e
           | Inr row' \<Rightarrow> Inr (h\<lparr>tile_rows := (tile_rows h)[r := row']\<rparr>)))"

definition is_inbounds_ref :: "heap \<Rightarrow> ref \<Rightarrow> Vector2 \<Rightarrow> bool" where
  "is_inbounds_ref h s p \<longleftrightarrow>
     0 \<le> vx p \<and> vx p < length_of (state_objs h ! s) \<and>
     0 \<le> vy p \<and> vy p < width_of (state_objs h ! s)"

definition positions_ref :: "heap \<Rightarrow> ref \<Rightarrow> Vector2 list" where
  "positions_ref h s =
     concat (map (\<lambda>i. map (\<lambda>j. Vector2 i j) (py_range (width_of (state_objs h ! s))))
                 (py_range (length_of (state_objs h ! s))))"

text \<open>The methods of \<^verbatim>\<open>State\<close> on the object \<open>s\<close>, as above with the heap for the state.\<close>

definition shift_tile_ref :: "heap \<Rightarrow> ref \<Rightarrow> Vector2 \<Rightarrow> Vector2 \<Rightarrow> Tile \<Rightarrow> error + (bool \<times> heap)" where
  "shift_tile_ref h s src dst t =
     (case set_ref h s src EMPTY of Inl e \<Rightarrow> Inl e
      | Inr h1 \<Rightarrow>
          (case set_ref h1 s dst t of Inl e \<Rightarrow> Inl e
           | Inr h2 \<Rightarrow> Inr (True, h2)))"

function move_box_ref :: "heap \<Rightarrow> ref \<Rightarrow> Vector2 \<Rightarrow> Vector2 \<Rightarrow> error + (bool \<times> heap)" where
  "move_box_ref h s box_pos direction =
     (let target = add box_pos direction in
      if \<not> is_inbounds_ref h s target then Inr (False, h)
      else case access_ref h s target of Inl e \<Rightarrow> Inl e
        | Inr t \<Rightarrow>
            if t = WALL then Inr (False, h)
            else if t = BOX then
              (if \<not> CAN_MULTIPUSH then Inr (False, h)
               else case move_box_ref h s target direction of Inl e \<Rightarrow> Inl e
                 | Inr (ok, h') \<Rightarrow>
                     if \<not> ok then Inr (False, h')
                     else shift_tile_ref h' s box_pos target BOX)
            else shift_tile_ref h s box_pos target BOX)"
  by pat_completeness auto

termination
  by (relation "{}") (auto simp: CAN_MULTIPUSH_def)

declare move_box_ref.simps [simp del]

definition move_player_ref :: "heap \<Rightarrow> ref \<Rightarrow> Vector2 \<Rightarrow> Vector2 \<Rightarrow> error + (bool \<times> heap)" where
  "move_player_ref h s player_pos direction =
     (let target = add player_pos direction in
      if \<not> is_inbounds_ref h s target then Inr (False, h)
      else case access_ref h s target of Inl e \<Rightarrow> Inl e
        | Inr t \<Rightarrow>
            if t = WALL then Inr (False, h)
            else if t = BOX then
              (case move_box_ref h s target direction of Inl e \<Rightarrow> Inl e
               | Inr (ok, h') \<Rightarrow>
                   if \<not> ok then Inr (False, h')
                   else shift_tile_ref h' s player_pos target PLAYER)
            else shift_tile_ref h s player_pos target PLAYER)"

text \<open>
  \<^verbatim>\<open>deepcopy\<close> of a \<^verbatim>\<open>State\<close>: every row is copied into a new row object, the two lists of
  rows into new lists of the new references, and the fields into a new \<^verbatim>\<open>State\<close> object;
  tiles, markings and integers are not copied. The library keeps a memo, so that an
  object reached twice is copied once; in a \<^verbatim>\<open>State\<close> whose lists are pairwise different
  objects nothing is reached twice, and the memo is left out.
\<close>

fun copy_rows :: "'a list list \<Rightarrow> ref list \<Rightarrow> 'a list list \<times> ref list" where
  "copy_rows rows [] = (rows, [])"
| "copy_rows rows (r # rs) =
     (case copy_rows (rows @ [rows ! r]) rs of
        (rows', rs') \<Rightarrow> (rows', length rows # rs'))"

definition deepcopy_ref :: "heap \<Rightarrow> ref \<Rightarrow> heap \<times> ref" where
  "deepcopy_ref h s =
     (case copy_rows (tile_rows h) (tile_refs h s) of
        (trs, ts) \<Rightarrow>
          (case copy_rows (mark_rows h) (mark_refs h s) of
             (mrs, ms) \<Rightarrow>
               (\<lparr>tile_rows = trs, mark_rows = mrs,
                  ref_lists = ref_lists h @ [ts, ms],
                  state_objs = state_objs h @
                    [StateObj (length (ref_lists h)) (Suc (length (ref_lists h)))
                       (length_of (state_objs h ! s)) (width_of (state_objs h ! s))]\<rparr>,
                length (state_objs h))))"

text \<open>\<^verbatim>\<open>Game.move\<close> and the runs of commands, on the heap.\<close>

fun move_scan_ref :: "heap \<Rightarrow> ref \<Rightarrow> Vector2 list \<Rightarrow> Vector2 \<Rightarrow> error + (bool \<times> heap)" where
  "move_scan_ref h c [] direction = Inr (False, h)"
| "move_scan_ref h c (p # ps) direction =
     (case access_ref h c p of Inl e \<Rightarrow> Inl e
      | Inr t \<Rightarrow>
          if t = PLAYER then
            (case move_player_ref h c p direction of Inl e \<Rightarrow> Inl e
             | Inr (ok, h') \<Rightarrow>
                 if ok then Inr (True, h') else move_scan_ref h' c ps direction)
          else move_scan_ref h c ps direction)"

definition move_ref :: "heap \<Rightarrow> Game \<Rightarrow> Vector2 \<Rightarrow> error + (bool \<times> heap \<times> Game)" where
  "move_ref h g direction =
     (case getitem (state g) (- 1) of Inl e \<Rightarrow> Inl e
      | Inr a \<Rightarrow>
          (case deepcopy_ref h a of
             (h1, c) \<Rightarrow>
               (case move_scan_ref h1 c (positions_ref h1 c) direction of Inl e \<Rightarrow> Inl e
                | Inr (ok, h2) \<Rightarrow>
                    if ok then Inr (True, h2, g\<lparr>state := state g @ [c]\<rparr>)
                    else Inr (False, h2, g))))"

fun run_ref :: "heap \<Rightarrow> Game \<Rightarrow> command list \<Rightarrow> error + (bool list \<times> heap \<times> Game)" where
  "run_ref h g [] = Inr ([], h, g)"
| "run_ref h g (Move d # cs) =
     (case move_ref h g d of Inl e \<Rightarrow> Inl e
      | Inr (ok, h', g') \<Rightarrow>
          (case run_ref h' g' cs of Inl e \<Rightarrow> Inl e
           | Inr (oks, h'', g'') \<Rightarrow> Inr (ok # oks, h'', g'')))"
| "run_ref h g (Undo # cs) =
     (case undo g of (ok, g') \<Rightarrow>
        (case run_ref h g' cs of Inl e \<Rightarrow> Inl e
         | Inr (oks, h'', g'') \<Rightarrow> Inr (ok # oks, h'', g'')))"

text \<open>
  The objects of a freshly built \<^verbatim>\<open>State\<close>, as \<^verbatim>\<open>parse_level\<close> builds them: every row a list
  of its own. \<open>value_of\<close> reads the grids of a \<^verbatim>\<open>State\<close> object off the heap, and
  \<open>snapshots\<close> reads every \<^verbatim>\<open>State\<close> object: the store of the sections above.
\<close>

definition new_heap :: "State \<Rightarrow> heap" where
  "new_heap s =
     \<lparr>tile_rows = tiles s, mark_rows = background s,
      ref_lists = [[0..<length (tiles s)], [0..<length (background s)]],
      state_objs = [StateObj 0 1 (length_st s) (width_st s)]\<rparr>"

definition value_of :: "heap \<Rightarrow> ref \<Rightarrow> State" where
  "value_of h s =
     \<lparr>tiles = map ((!) (tile_rows h)) (tile_refs h s),
      background = map ((!) (mark_rows h)) (mark_refs h s),
      length_st = length_of (state_objs h ! s), width_st = width_of (state_objs h ! s)\<rparr>"

definition snapshots :: "heap \<Rightarrow> store" where
  "snapshots h = map (value_of h) [0..<length (state_objs h)]"

text \<open>
  \<open>owns\<close>: the references of a \<^verbatim>\<open>State\<close> object are valid and lead to pairwise different
  objects. \<open>separate\<close>: every \<^verbatim>\<open>State\<close> object of the heap owns its objects, and no two
  share any. \<open>tiles_frame\<close>: only tile rows of the object \<open>s\<close> have been written.
  \<open>extends\<close>: objects have been allocated and none written. \<open>sim\<close>: a result on the
  heap and a result on values agree. \<open>mutates_only\<close>: every object of the first heap
  that is no object of the snapshot \<open>a\<close> is unchanged in the second.
\<close>

definition owns :: "heap \<Rightarrow> ref \<Rightarrow> bool" where
  "owns h s \<longleftrightarrow>
     s < length (state_objs h) \<and>
     tiles_ref (state_objs h ! s) < length (ref_lists h) \<and>
     background_ref (state_objs h ! s) < length (ref_lists h) \<and>
     tiles_ref (state_objs h ! s) \<noteq> background_ref (state_objs h ! s) \<and>
     distinct (tile_refs h s) \<and> (\<forall>r\<in>set (tile_refs h s). r < length (tile_rows h)) \<and>
     distinct (mark_refs h s) \<and> (\<forall>r\<in>set (mark_refs h s). r < length (mark_rows h))"

definition tiles_frame :: "heap \<Rightarrow> heap \<Rightarrow> ref \<Rightarrow> bool" where
  "tiles_frame h h' s \<longleftrightarrow>
     mark_rows h' = mark_rows h \<and> ref_lists h' = ref_lists h \<and> state_objs h' = state_objs h \<and>
     length (tile_rows h') = length (tile_rows h) \<and>
     (\<forall>r. r \<notin> set (tile_refs h s) \<longrightarrow> tile_rows h' ! r = tile_rows h ! r)"

definition sim :: "ref \<Rightarrow> heap \<Rightarrow> error + (bool \<times> heap) \<Rightarrow> error + (bool \<times> State) \<Rightarrow> bool" where
  "sim s h R V \<longleftrightarrow>
     (case R of Inl e \<Rightarrow> V = Inl e
      | Inr (ok, h') \<Rightarrow> V = Inr (ok, value_of h' s) \<and> tiles_frame h h' s)"

definition separate :: "heap \<Rightarrow> bool" where
  "separate h \<longleftrightarrow>
     (\<forall>s<length (state_objs h). owns h s) \<and>
     (\<forall>s<length (state_objs h). \<forall>t<length (state_objs h). s \<noteq> t \<longrightarrow>
        set (tile_refs h s) \<inter> set (tile_refs h t) = {} \<and>
        set (mark_refs h s) \<inter> set (mark_refs h t) = {} \<and>
        {tiles_ref (state_objs h ! s), background_ref (state_objs h ! s)} \<inter>
        {tiles_ref (state_objs h ! t), background_ref (state_objs h ! t)} = {})"

definition extends :: "heap \<Rightarrow> heap \<Rightarrow> bool" where
  "extends h h' \<longleftrightarrow>
     (\<exists>trs mrs rls sos. h' = \<lparr>tile_rows = tile_rows h @ trs, mark_rows = mark_rows h @ mrs,
        ref_lists = ref_lists h @ rls, state_objs = state_objs h @ sos\<rparr>)"

definition mutates_only :: "heap \<Rightarrow> heap \<Rightarrow> ref \<Rightarrow> bool" where
  "mutates_only h h' a \<longleftrightarrow>
     (\<forall>r\<in>set [0..<length (tile_rows h)].
        r \<notin> set (tile_refs h a) \<longrightarrow> tile_rows h' ! r = tile_rows h ! r) \<and>
     (\<forall>r\<in>set [0..<length (mark_rows h)].
        r \<notin> set (mark_refs h a) \<longrightarrow> mark_rows h' ! r = mark_rows h ! r) \<and>
     (\<forall>l\<in>set [0..<length (ref_lists h)].
        l \<noteq> tiles_ref (state_objs h ! a) \<and> l \<noteq> background_ref (state_objs h ! a) \<longrightarrow>
        ref_lists h' ! l = ref_lists h ! l) \<and>
     (\<forall>s\<in>set [0..<length (state_objs h)]. s \<noteq> a \<longrightarrow> state_objs h' ! s = state_objs h ! s)"

definition history_refs :: "heap \<Rightarrow> Game \<Rightarrow> bool" where
  "history_refs h g \<longleftrightarrow>
     separate h \<and> state g \<noteq> [] \<and> distinct (state g) \<and>
     (\<forall>a\<in>set (state g). a < length (state_objs h))"

section \<open>Cells of a grid held by value\<close>

text \<open>
  For a position with non-negative coordinates, indexing does not wrap around:
  \<open>cell_ok\<close> says that the position is a cell of the (possibly ragged) list of rows,
  \<open>cell\<close> reads it and \<open>put\<close> writes it.
\<close>

definition cell_ok :: "'a list list \<Rightarrow> Vector2 \<Rightarrow> bool" where
  "cell_ok a p \<longleftrightarrow>
     0 \<le> vx p \<and> vx p < int (length a) \<and> 0 \<le> vy p \<and> vy p < int (length (a ! nat (vx p)))"

definition cell :: "'a list list \<Rightarrow> Vector2 \<Rightarrow> 'a" where
  "cell a p = a ! nat (vx p) ! nat (vy p)"

definition put :: "'a list list \<Rightarrow> Vector2 \<Rightarrow> 'a \<Rightarrow> 'a list list" where
  "put a p v = a[nat (vx p) := (a ! nat (vx p))[nat (vy p) := v]]"

section \<open>Rectangular grids\<close>

text \<open>
  The grids of the level grammar: \<^verbatim>\<open>length\<close> rows of \<^verbatim>\<open>width\<close> tiles, and a background
  of the same shape. \<^verbatim>\<open>State.__init__\<close> takes \<^verbatim>\<open>width\<close> from the first row and checks
  neither.
\<close>

definition rect :: "State \<Rightarrow> bool" where
  "rect s \<longleftrightarrow>
     length_st s = int (length (tiles s)) \<and> (\<forall>row\<in>set (tiles s). int (length row) = width_st s)"

definition rect_background :: "State \<Rightarrow> bool" where
  "rect_background s \<longleftrightarrow>
     length (background s) = length (tiles s) \<and>
     (\<forall>row\<in>set (background s). int (length row) = width_st s)"

section \<open>Counting boxes, and the references of a history\<close>

definition count_boxes :: "State \<Rightarrow> nat" where
  "count_boxes s = count_list (concat (tiles s)) BOX"

text \<open>
  What every history of a run satisfies: it is not empty, its references are valid and
  pairwise different, and every snapshot holds \<open>n\<close> boxes.
\<close>

definition history_ok :: "nat \<Rightarrow> store \<Rightarrow> Game \<Rightarrow> bool" where
  "history_ok n h g \<longleftrightarrow>
     state g \<noteq> [] \<and> distinct (state g) \<and>
     (\<forall>a\<in>set (state g). a < length h \<and> count_boxes (h ! a) = n)"

text \<open>Every snapshot of a history is rectangular.\<close>

definition history_rect :: "store \<Rightarrow> Game \<Rightarrow> bool" where
  "history_rect h g \<longleftrightarrow> state g \<noteq> [] \<and> (\<forall>a\<in>set (state g). a < length h \<and> rect (h ! a))"

section \<open>Example levels\<close>

text \<open>A player facing a wall: the level \<^verbatim>\<open>p#\<close>.\<close>

definition wall_level :: State where
  "wall_level = \<lparr>tiles = [[PLAYER, WALL]], background = [[BG_EMPTY, BG_EMPTY]],
     length_st = 1, width_st = 2\<rparr>"

text \<open>A box on a target and a target left empty: the level \<^verbatim>\<open>px.\<close> over \<^verbatim>\<open>.oo\<close>.\<close>

definition spare_target_level :: State where
  "spare_target_level = \<lparr>tiles = [[PLAYER, BOX, EMPTY]], background = [[BG_EMPTY, TARGET, TARGET]],
     length_st = 1, width_st = 3\<rparr>"

text \<open>Two players in one row: the level \<^verbatim>\<open>p.p\<close>.\<close>

definition two_players_level :: State where
  "two_players_level = \<lparr>tiles = [[PLAYER, EMPTY, PLAYER]], background = [[BG_EMPTY, BG_EMPTY, BG_EMPTY]],
     length_st = 1, width_st = 3\<rparr>"

text \<open>A player behind two boxes in a row: the level \<^verbatim>\<open>pxx.\<close>.\<close>

definition two_boxes_level :: State where
  "two_boxes_level = \<lparr>tiles = [[PLAYER, BOX, BOX, EMPTY]],
     background = [[BG_EMPTY, BG_EMPTY, BG_EMPTY, TARGET]], length_st = 1, width_st = 4\<rparr>"

text \<open>No player at all: the level \<^verbatim>\<open>.#\<close>.\<close>

definition no_player_level :: State where
  "no_player_level = \<lparr>tiles = [[EMPTY, WALL]], background = [[BG_EMPTY, BG_EMPTY]],
     length_st = 1, width_st = 2\<rparr>"

text \<open>The texts of two of these levels, as \<^verbatim>\<open>parse_level\<close> reads them.\<close>

definition spare_target_text :: string where
  "spare_target_text = join [CHR 0x0A] [''1 3'', ''px.'', ''.oo'']"

text \<open>
  A level whose second tile row is shorter than the first, under a header that announces
  two rows of two tiles; the same rows under a header that announces nine columns; a
  level without background rows; and a level whose header gives a negative length.
\<close>

definition ragged_text :: string where
  "ragged_text = join [CHR 0x0A] [''2 2'', ''.p'', ''.'', ''..'', ''..'']"

definition ragged_level :: State where
  "ragged_level = \<lparr>tiles = [[EMPTY, PLAYER], [EMPTY]],
     background = [[BG_EMPTY, BG_EMPTY], [BG_EMPTY, BG_EMPTY]], length_st = 2, width_st = 2\<rparr>"

definition wide_header_text :: string where
  "wide_header_text = join [CHR 0x0A] [''2 9'', ''.p'', ''.'', ''..'', ''..'']"

definition no_background_text :: string where
  "no_background_text = join [CHR 0x0A] [''1 1'', ''p'']"

definition negative_header_text :: string where
  "negative_header_text = join [CHR 0x0A] [''-2 5'', ''p.'', ''x'']"

text \<open>A level with a character that is no tile.\<close>

definition bad_tile_text :: string where
  "bad_tile_text = join [CHR 0x0A] [''1 2'', ''pz'', ''..'']"

text \<open>
  A level whose second tile row is longer than the first: the box at row 1, column 1
  lies beyond the width that \<^verbatim>\<open>State.__init__\<close> takes from the first row.
\<close>

definition long_row_text :: string where
  "long_row_text = join [CHR 0x0A] [''2 1'', ''p'', ''.x'', ''.'', ''..'']"

definition long_row_level :: State where
  "long_row_level = \<lparr>tiles = [[PLAYER], [EMPTY, BOX]],
     background = [[BG_EMPTY], [BG_EMPTY, BG_EMPTY]], length_st = 2, width_st = 1\<rparr>"

text \<open>
  Heaps of a game on \<^verbatim>\<open>px.\<close>: after a move to the right and an undo; after one more move
  to the right; and the latter with every object of the new snapshot overwritten.
\<close>

definition undone_heap :: heap where
  "undone_heap =
     \<lparr>tile_rows = [[PLAYER, BOX, EMPTY], [EMPTY, PLAYER, BOX]],
      mark_rows = [[BG_EMPTY, TARGET, TARGET], [BG_EMPTY, TARGET, TARGET]],
      ref_lists = [[0], [0], [1], [1]],
      state_objs = [StateObj 0 1 1 3, StateObj 2 3 1 3]\<rparr>"

definition moved_heap :: heap where
  "moved_heap =
     \<lparr>tile_rows = [[PLAYER, BOX, EMPTY], [EMPTY, PLAYER, BOX], [EMPTY, PLAYER, BOX]],
      mark_rows = [[BG_EMPTY, TARGET, TARGET], [BG_EMPTY, TARGET, TARGET],
                   [BG_EMPTY, TARGET, TARGET]],
      ref_lists = [[0], [0], [1], [1], [2], [2]],
      state_objs = [StateObj 0 1 1 3, StateObj 2 3 1 3, StateObj 4 5 1 3]\<rparr>"

definition scribbled_heap :: heap where
  "scribbled_heap =
     \<lparr>tile_rows = [[PLAYER, BOX, EMPTY], [EMPTY, PLAYER, BOX], [WALL, WALL, WALL]],
      mark_rows = [[BG_EMPTY, TARGET, TARGET], [BG_EMPTY, TARGET, TARGET], []],
      ref_lists = [[0], [0], [1], [1], [], [2, 2]],
      state_objs = [StateObj 0 1 1 3, StateObj 2 3 1 3, StateObj 5 4 7 7]\<rparr>"

section \<open>Indexing without wrap-around\<close>

lemma norm_index_nonneg:
  "0 \<le> i \<Longrightarrow> norm_index a i = (if i < int (length a) then Inr (nat i) else Inl IndexError)"
  by (simp add: norm_index_def)

lemma getitem_nonneg:
  "0 \<le> i \<Longrightarrow> getitem a i = (if i < int (length a) then Inr (a ! nat i) else Inl IndexError)"
  by (simp add: getitem_def norm_index_nonneg)

lemma setitem_nonneg:
  "0 \<le> i \<Longrightarrow> setitem a i v = (if i < int (length a) then Inr (a[nat i := v]) else Inl IndexError)"
  by (simp add: setitem_def norm_index_nonneg)

lemma getitem_last:
  "getitem a (- 1) = (if a = [] then Inl IndexError else Inr (last a))"
proof (cases "a = []")
  case True
  then show ?thesis by (simp add: getitem_def norm_index_def)
next
  case False
  then obtain x xs where a: "a = x # xs" by (cases a) auto
  have "norm_index a (- 1) = Inr (length a - 1)"
    by (simp add: norm_index_def a)
  with False show ?thesis
    by (simp add: getitem_def last_conv_nth)
qed

lemma access_nonneg:
  "0 \<le> vx p \<Longrightarrow> 0 \<le> vy p \<Longrightarrow>
   access p a = (if cell_ok a p then Inr (cell a p) else Inl IndexError)"
  by (simp add: access_def getitem_nonneg cell_ok_def cell_def)

lemma set_vec_nonneg:
  "0 \<le> vx p \<Longrightarrow> 0 \<le> vy p \<Longrightarrow>
   set_vec p a v = (if cell_ok a p then Inr (put a p v) else Inl IndexError)"
  by (simp add: set_vec_def getitem_nonneg setitem_nonneg cell_ok_def put_def)

lemma cell_ok_put [simp]: "cell_ok (put a p v) q = cell_ok a q"
  by (cases "nat (vx p) = nat (vx q)") (auto simp: cell_ok_def put_def nth_list_update)

lemma cell_put:
  "cell_ok a p \<Longrightarrow> 0 \<le> vx q \<Longrightarrow> 0 \<le> vy q \<Longrightarrow>
   cell (put a p v) q = (if q = p then v else cell a q)"
  by (cases p; cases q) (auto simp: cell_ok_def cell_def put_def nth_list_update)

lemma length_put [simp]: "length (put a p v) = length a"
  by (simp add: put_def)

section \<open>What a move does\<close>

lemma shift_tile_nonneg:
  assumes "0 \<le> vx src" "0 \<le> vy src" "0 \<le> vx dst" "0 \<le> vy dst"
  shows "shift_tile s src dst v =
     (if cell_ok (tiles s) src \<and> cell_ok (tiles s) dst
      then Inr (True, s\<lparr>tiles := put (put (tiles s) src EMPTY) dst v\<rparr>)
      else Inl IndexError)"
  using assms by (simp add: shift_tile_def set_vec_nonneg)

lemma is_inbounds_nonneg: "is_inbounds s p \<Longrightarrow> 0 \<le> vx p \<and> 0 \<le> vy p"
  by (simp add: is_inbounds_def)

lemma is_inbounds_tiles_update [simp]: "is_inbounds (s\<lparr>tiles := ts\<rparr>) p = is_inbounds s p"
  by (simp add: is_inbounds_def)

lemma move_box_nonneg:
  assumes "0 \<le> vx b" "0 \<le> vy b"
  shows "move_box s b d =
     (let t = add b d in
      if \<not> is_inbounds s t then Inr (False, s)
      else if \<not> cell_ok (tiles s) t then Inl IndexError
      else if cell (tiles s) t = WALL \<or> cell (tiles s) t = BOX then Inr (False, s)
      else if \<not> cell_ok (tiles s) b then Inl IndexError
      else Inr (True, s\<lparr>tiles := put (put (tiles s) b EMPTY) t BOX\<rparr>))"
proof (cases "is_inbounds s (add b d)")
  case False
  then show ?thesis by (simp add: move_box.simps Let_def)
next
  case True
  then have nn: "0 \<le> vx (add b d)" "0 \<le> vy (add b d)"
    by (simp_all add: is_inbounds_nonneg)
  show ?thesis
    using True assms nn
    by (simp add: move_box.simps Let_def access_nonneg shift_tile_nonneg CAN_MULTIPUSH_def)
qed

lemma move_player_nonneg:
  assumes "0 \<le> vx p" "0 \<le> vy p"
  shows "move_player s p d =
     (let t = add p d; u = add t d in
      if \<not> is_inbounds s t then Inr (False, s)
      else if \<not> cell_ok (tiles s) t then Inl IndexError
      else if cell (tiles s) t = WALL then Inr (False, s)
      else if cell (tiles s) t = BOX then
        (if \<not> is_inbounds s u then Inr (False, s)
         else if \<not> cell_ok (tiles s) u then Inl IndexError
         else if cell (tiles s) u = WALL \<or> cell (tiles s) u = BOX then Inr (False, s)
         else if \<not> cell_ok (tiles s) p then Inl IndexError
         else Inr (True, s\<lparr>tiles := put (put (put (put (tiles s) t EMPTY) u BOX) p EMPTY) t PLAYER\<rparr>))
      else if \<not> cell_ok (tiles s) p then Inl IndexError
      else Inr (True, s\<lparr>tiles := put (put (tiles s) p EMPTY) t PLAYER\<rparr>))"
proof (cases "is_inbounds s (add p d)")
  case False
  then show ?thesis by (simp add: move_player_def Let_def)
next
  case True
  then have nn: "0 \<le> vx (add p d)" "0 \<le> vy (add p d)"
    by (simp_all add: is_inbounds_nonneg)
  show ?thesis
    using True assms nn
    by (simp add: move_player_def Let_def access_nonneg shift_tile_nonneg move_box_nonneg)
qed

section \<open>Winning\<close>

lemma rect_cell_ok: "rect s \<Longrightarrow> cell_ok (tiles s) p = is_inbounds s p"
  by (auto simp: rect_def cell_ok_def is_inbounds_def)

lemma rect_background_cell_ok:
  "rect s \<Longrightarrow> rect_background s \<Longrightarrow> cell_ok (background s) p = is_inbounds s p"
  by (auto simp: rect_def rect_background_def cell_ok_def is_inbounds_def)

lemma set_py_range: "set (py_range n) = {0..<n}"
  by (auto simp: py_range_def)

lemma Vector2_in_grid:
  "i \<in> set is \<Longrightarrow> j \<in> set js \<Longrightarrow>
   Vector2 i j \<in> set (concat (map (\<lambda>i. map (\<lambda>j. Vector2 i j) js) is))"
  by (induction "is") auto

lemma set_positions: "set (positions s) = {p. is_inbounds s p}"
proof (intro set_eqI iffI)
  fix p assume "p \<in> set (positions s)"
  then show "p \<in> {p. is_inbounds s p}"
    by (auto simp: positions_def set_py_range is_inbounds_def)
next
  fix p assume "p \<in> {p. is_inbounds s p}"
  then have "vx p \<in> set (py_range (length_st s))" "vy p \<in> set (py_range (width_st s))"
    by (simp_all add: is_inbounds_def set_py_range)
  then have "Vector2 (vx p) (vy p) \<in> set (positions s)"
    unfolding positions_def by (rule Vector2_in_grid)
  then show "p \<in> set (positions s)" by simp
qed

lemma win_cols_eq:
  assumes "0 \<le> i"
    and "\<forall>j\<in>set js. 0 \<le> j \<and> cell_ok (tiles s) (Vector2 i j) \<and>
           (cell (tiles s) (Vector2 i j) = BOX \<longrightarrow> cell_ok (background s) (Vector2 i j))"
  shows "win_cols s i js =
     Inr (\<forall>j\<in>set js. cell (tiles s) (Vector2 i j) = BOX \<longrightarrow> cell (background s) (Vector2 i j) = TARGET)"
  using assms by (induction js) (auto simp: access_nonneg)

lemma win_rows_eq:
  assumes "\<forall>i\<in>set is. 0 \<le> i \<and> (\<forall>j\<in>set (py_range (width_st s)). cell_ok (tiles s) (Vector2 i j) \<and>
           (cell (tiles s) (Vector2 i j) = BOX \<longrightarrow> cell_ok (background s) (Vector2 i j)))"
  shows "win_rows s is =
     Inr (\<forall>i\<in>set is. \<forall>j\<in>set (py_range (width_st s)).
            cell (tiles s) (Vector2 i j) = BOX \<longrightarrow> cell (background s) (Vector2 i j) = TARGET)"
  using assms
proof (induction "is")
  case Nil
  then show ?case by simp
next
  case (Cons i "is")
  from Cons.prems have "win_cols s i (py_range (width_st s)) =
     Inr (\<forall>j\<in>set (py_range (width_st s)). cell (tiles s) (Vector2 i j) = BOX \<longrightarrow> cell (background s) (Vector2 i j) = TARGET)"
    by (intro win_cols_eq) (auto simp: set_py_range)
  moreover from Cons have "win_rows s is =
     Inr (\<forall>i\<in>set is. \<forall>j\<in>set (py_range (width_st s)).
            cell (tiles s) (Vector2 i j) = BOX \<longrightarrow> cell (background s) (Vector2 i j) = TARGET)"
    by simp
  ultimately show ?case by auto
qed

lemma win_eq:
  assumes "\<forall>p. is_inbounds s p \<longrightarrow> cell_ok (tiles s) p \<and> (cell (tiles s) p = BOX \<longrightarrow> cell_ok (background s) p)"
  shows "win s = Inr (\<forall>p. is_inbounds s p \<longrightarrow> cell (tiles s) p = BOX \<longrightarrow> cell (background s) p = TARGET)"
proof -
  have inb: "\<And>i j. i \<in> set (py_range (length_st s)) \<Longrightarrow> j \<in> set (py_range (width_st s)) \<Longrightarrow> is_inbounds s (Vector2 i j)"
    by (simp add: set_py_range is_inbounds_def)
  have "win s = Inr (\<forall>i\<in>set (py_range (length_st s)). \<forall>j\<in>set (py_range (width_st s)).
            cell (tiles s) (Vector2 i j) = BOX \<longrightarrow> cell (background s) (Vector2 i j) = TARGET)"
    unfolding win_def using assms inb
    by (intro win_rows_eq) (auto simp: set_py_range)
  also have "(\<forall>i\<in>set (py_range (length_st s)). \<forall>j\<in>set (py_range (width_st s)).
            cell (tiles s) (Vector2 i j) = BOX \<longrightarrow> cell (background s) (Vector2 i j) = TARGET)
      = (\<forall>p. is_inbounds s p \<longrightarrow> cell (tiles s) p = BOX \<longrightarrow> cell (background s) p = TARGET)"
  proof (intro iffI allI impI ballI)
    fix p assume a: "\<forall>i\<in>set (py_range (length_st s)). \<forall>j\<in>set (py_range (width_st s)).
            cell (tiles s) (Vector2 i j) = BOX \<longrightarrow> cell (background s) (Vector2 i j) = TARGET"
      and "is_inbounds s p" "cell (tiles s) p = BOX"
    then show "cell (background s) p = TARGET"
      by (cases p) (auto simp: set_py_range is_inbounds_def)
  next
    fix i j assume "\<forall>p. is_inbounds s p \<longrightarrow> cell (tiles s) p = BOX \<longrightarrow> cell (background s) p = TARGET"
      "i \<in> set (py_range (length_st s))" "j \<in> set (py_range (width_st s))" "cell (tiles s) (Vector2 i j) = BOX"
    with inb show "cell (background s) (Vector2 i j) = TARGET" by blast
  qed
  finally show ?thesis .
qed

lemma cell_in_concat: "cell_ok a p \<Longrightarrow> cell a p \<in> set (concat a)"
  by (auto simp: cell_ok_def cell_def intro!: bexI [where x = "a ! nat (vx p)"])

lemma win_cols_True:
  assumes "0 \<le> i" and "\<forall>j\<in>set js. 0 \<le> j \<and> cell_ok (tiles s) (Vector2 i j)"
  shows "win_cols s i js = Inr True \<longleftrightarrow>
     (\<forall>j\<in>set js. cell (tiles s) (Vector2 i j) = BOX \<longrightarrow>
        access (Vector2 i j) (background s) = Inr TARGET)"
  using assms
proof (induction js)
  case Nil
  then show ?case by simp
next
  case (Cons j js)
  then have t: "access (Vector2 i j) (tiles s) = Inr (cell (tiles s) (Vector2 i j))"
    by (simp add: access_nonneg)
  show ?case
  proof (cases "cell (tiles s) (Vector2 i j) = BOX")
    case False
    with t Cons show ?thesis by simp
  next
    case True
    show ?thesis
    proof (cases "access (Vector2 i j) (background s)")
      case (Inl e)
      with t True show ?thesis by simp
    next
      case (Inr b)
      with t True Cons show ?thesis by simp
    qed
  qed
qed

lemma win_rows_True:
  assumes "\<forall>i\<in>set is. 0 \<le> i \<and> (\<forall>j\<in>set (py_range (width_st s)). cell_ok (tiles s) (Vector2 i j))"
  shows "win_rows s is = Inr True \<longleftrightarrow>
     (\<forall>i\<in>set is. \<forall>j\<in>set (py_range (width_st s)).
        cell (tiles s) (Vector2 i j) = BOX \<longrightarrow> access (Vector2 i j) (background s) = Inr TARGET)"
  using assms
proof (induction "is")
  case Nil
  then show ?case by simp
next
  case (Cons i "is")
  from Cons.prems have cols: "win_cols s i (py_range (width_st s)) = Inr True \<longleftrightarrow>
     (\<forall>j\<in>set (py_range (width_st s)). cell (tiles s) (Vector2 i j) = BOX \<longrightarrow>
        access (Vector2 i j) (background s) = Inr TARGET)"
    by (intro win_cols_True) (auto simp: set_py_range)
  from Cons have rows: "win_rows s is = Inr True \<longleftrightarrow>
     (\<forall>i\<in>set is. \<forall>j\<in>set (py_range (width_st s)).
        cell (tiles s) (Vector2 i j) = BOX \<longrightarrow> access (Vector2 i j) (background s) = Inr TARGET)"
    by simp
  show ?case
  proof (cases "win_cols s i (py_range (width_st s))")
    case (Inl e)
    with cols show ?thesis by auto
  next
    case (Inr ok)
    with cols rows show ?thesis by (cases ok) auto
  qed
qed

lemma win_True:
  assumes "rect s"
  shows "win s = Inr True \<longleftrightarrow>
     (\<forall>p. is_inbounds s p \<longrightarrow> access p (tiles s) = Inr BOX \<longrightarrow>
          access p (background s) = Inr TARGET)"
proof -
  have inb: "is_inbounds s (Vector2 i j)"
    if "i \<in> set (py_range (length_st s))" "j \<in> set (py_range (width_st s))" for i j
    using that by (simp add: set_py_range is_inbounds_def)
  have tile: "access p (tiles s) = Inr (cell (tiles s) p)" if "is_inbounds s p" for p
    using that assms by (simp add: access_nonneg is_inbounds_nonneg rect_cell_ok)
  have "win s = Inr True \<longleftrightarrow>
     (\<forall>i\<in>set (py_range (length_st s)). \<forall>j\<in>set (py_range (width_st s)).
        cell (tiles s) (Vector2 i j) = BOX \<longrightarrow> access (Vector2 i j) (background s) = Inr TARGET)"
    unfolding win_def using assms inb
    by (intro win_rows_True) (auto simp: set_py_range rect_cell_ok)
  also have "\<dots> \<longleftrightarrow> (\<forall>p. is_inbounds s p \<longrightarrow> cell (tiles s) p = BOX \<longrightarrow>
          access p (background s) = Inr TARGET)"
  proof (intro iffI allI impI ballI)
    fix p
    assume a: "\<forall>i\<in>set (py_range (length_st s)). \<forall>j\<in>set (py_range (width_st s)).
        cell (tiles s) (Vector2 i j) = BOX \<longrightarrow> access (Vector2 i j) (background s) = Inr TARGET"
      and "is_inbounds s p" "cell (tiles s) p = BOX"
    then show "access p (background s) = Inr TARGET"
      by (cases p) (auto simp: set_py_range is_inbounds_def)
  next
    fix i j
    assume "\<forall>p. is_inbounds s p \<longrightarrow> cell (tiles s) p = BOX \<longrightarrow> access p (background s) = Inr TARGET"
      "i \<in> set (py_range (length_st s))" "j \<in> set (py_range (width_st s))"
      "cell (tiles s) (Vector2 i j) = BOX"
    with inb show "access (Vector2 i j) (background s) = Inr TARGET" by blast
  qed
  also have "\<dots> \<longleftrightarrow> (\<forall>p. is_inbounds s p \<longrightarrow> access p (tiles s) = Inr BOX \<longrightarrow>
          access p (background s) = Inr TARGET)"
    using tile by auto
  finally show ?thesis .
qed

text \<open>
  C3, as amended. On a rectangular grid \<^verbatim>\<open>win\<close> returns true exactly when every position holding a
  box is marked as a target in the background; nothing is asked of the targets that
  hold no box. A grid without boxes is won, whatever its background. With a background
  of the shape of the tiles, \<^verbatim>\<open>win\<close> returns a boolean.
\<close>

theorem win_iff_boxes_on_targets:
  assumes "rect s"
  shows "(win s = Inr True \<longleftrightarrow>
            (\<forall>p. is_inbounds s p \<longrightarrow> access p (tiles s) = Inr BOX \<longrightarrow>
                 access p (background s) = Inr TARGET))
       \<and> (BOX \<notin> set (concat (tiles s)) \<longrightarrow> win s = Inr True)
       \<and> (rect_background s \<longrightarrow> win s = Inr True \<or> win s = Inr False)"
proof (intro conjI impI)
  show iff: "win s = Inr True \<longleftrightarrow>
      (\<forall>p. is_inbounds s p \<longrightarrow> access p (tiles s) = Inr BOX \<longrightarrow>
           access p (background s) = Inr TARGET)"
    by (rule win_True [OF assms])
  show "win s = Inr True" if nb: "BOX \<notin> set (concat (tiles s))"
  proof -
    have "access p (tiles s) \<noteq> Inr BOX" if "is_inbounds s p" for p
    proof -
      from that assms have ok: "cell_ok (tiles s) p" by (simp add: rect_cell_ok)
      from cell_in_concat [OF ok] nb have "cell (tiles s) p \<noteq> BOX" by metis
      with ok that show ?thesis by (simp add: access_nonneg is_inbounds_nonneg)
    qed
    with iff show ?thesis by blast
  qed
  show "win s = Inr True \<or> win s = Inr False" if bg: "rect_background s"
  proof -
    have "\<forall>p. is_inbounds s p \<longrightarrow> cell_ok (tiles s) p \<and>
        (cell (tiles s) p = BOX \<longrightarrow> cell_ok (background s) p)"
      using assms bg by (simp add: rect_cell_ok rect_background_cell_ok)
    from win_eq [OF this] show ?thesis by auto
  qed
qed

theorem win_iff_boxes_on_targets_witness:
  "rect wall_level \<and> BOX \<notin> set (concat (tiles wall_level)) \<and> win wall_level = Inr True
   \<and> rect spare_target_level \<and> rect_background spare_target_level
   \<and> access (Vector2 0 2) (tiles spare_target_level) = Inr EMPTY
   \<and> access (Vector2 0 2) (background spare_target_level) = Inr TARGET
   \<and> win spare_target_level = Inr True"
proof -
  have r1: "rect wall_level" and nb: "BOX \<notin> set (concat (tiles wall_level))"
    by (simp_all add: rect_def wall_level_def)
  have r2: "rect spare_target_level" and bg: "rect_background spare_target_level"
    by (simp_all add: rect_def rect_background_def spare_target_level_def)
  have a: "access (Vector2 0 2) (tiles spare_target_level) = Inr EMPTY"
    "access (Vector2 0 2) (background spare_target_level) = Inr TARGET"
    by code_simp+
  have "win spare_target_level \<noteq> Inr False"
    by code_simp
  with win_iff_boxes_on_targets [OF r2] bg have w2: "win spare_target_level = Inr True"
    by blast
  from win_iff_boxes_on_targets [OF r1] nb have w1: "win wall_level = Inr True"
    by blast
  from r1 nb w1 r2 bg a w2 show ?thesis by blast
qed

text \<open>
  C3, as stated for every grid, fails on two levels that \<^verbatim>\<open>parse_level\<close> accepts.
  \<^verbatim>\<open>ragged_level\<close> holds no box, and \<^verbatim>\<open>win\<close> raises \<^verbatim>\<open>IndexError\<close> on it: the loop
  reads row 1 at column 1, which the row does not have. \<^verbatim>\<open>long_row_level\<close> holds a box
  on a cell that is no target, and \<^verbatim>\<open>win\<close> returns true: the loop stops at the width of
  the first row and never reads the box.
\<close>

theorem win_ragged_counterexample:
  "parse_level ragged_text = Some ragged_level
   \<and> BOX \<notin> set (concat (tiles ragged_level))
   \<and> win ragged_level = Inl IndexError
   \<and> parse_level long_row_text = Some long_row_level
   \<and> access (Vector2 1 1) (tiles long_row_level) = Inr BOX
   \<and> access (Vector2 1 1) (background long_row_level) = Inr BG_EMPTY
   \<and> win long_row_level = Inr True"
  by code_simp

section \<open>The history\<close>

lemma move_cases:
  "move h g d =
     (if state g = [] then Inl IndexError
      else case move_scan (h ! last (state g)) (positions (h ! last (state g))) d of
        Inl e \<Rightarrow> Inl e
      | Inr (ok, sc) \<Rightarrow>
          if ok then Inr (True, h @ [sc], g\<lparr>state := state g @ [length h]\<rparr>)
          else Inr (False, h @ [sc], g))"
  by (simp add: move_def getitem_last deepcopy_def split: sum.splits)

lemma current_cases:
  "current h g = (if state g = [] then Inl IndexError else Inr (h ! last (state g)))"
  by (simp add: current_def getitem_last)

text \<open>
  C1. If \<^verbatim>\<open>move(d)\<close> returns false, the history list is the one before the call, every
  snapshot it refers to has the value it had, and so has the current grid. The
  references of the history are taken to be valid, as Python's are.
\<close>

theorem move_False_unchanged:
  assumes "move h g d = Inr (False, h', g')" and "\<forall>a\<in>set (state g). a < length h"
  shows "g' = g \<and> map ((!) h') (state g') = map ((!) h) (state g) \<and> current h' g' = current h g"
proof -
  from assms(1) obtain sc where g': "g' = g" and h': "h' = h @ [sc]" and ne: "state g \<noteq> []"
    by (auto simp: move_cases split: if_splits sum.splits)
  from assms(2) have old: "\<And>a. a \<in> set (state g) \<Longrightarrow> h' ! a = h ! a"
    by (simp add: h' nth_append)
  from ne have "last (state g) \<in> set (state g)" by simp
  with old g' ne show ?thesis by (simp add: current_cases)
qed

theorem move_False_unchanged_witness:
  "move [wall_level] (Game_init 0) RIGHT = Inr (False, [wall_level, wall_level], Game_init 0)
   \<and> state (Game_init 0) = [0]
   \<and> map ((!) [wall_level, wall_level]) (state (Game_init 0)) = map ((!) [wall_level]) (state (Game_init 0))
   \<and> current [wall_level, wall_level] (Game_init 0) = current [wall_level] (Game_init 0)"
proof -
  have m: "move [wall_level] (Game_init 0) RIGHT = Inr (False, [wall_level, wall_level], Game_init 0)"
    by code_simp
  have v: "\<forall>a\<in>set (state (Game_init 0)). a < length [wall_level]"
    by (simp add: Game_init_def)
  from move_False_unchanged [OF m v] m show ?thesis
    by (simp add: Game_init_def)
qed

section \<open>Pushing\<close>

lemma add_add_neq: "add (add p d) d = p \<Longrightarrow> add p d = p"
  by (cases p; cases d) (simp add: add_def)

lemma add_inj_left: "add p d = add q d \<Longrightarrow> p = q"
  by (cases p; cases q; cases d) (simp add: add_def)

text \<open>
  C7. \<^verbatim>\<open>CAN_MULTIPUSH\<close> is false. A player at \<open>p\<close> that pushes the box at \<open>p + d\<close> toward
  a cell \<open>p + 2d\<close> that holds a box fails, in \<^verbatim>\<open>move_box\<close> and in \<^verbatim>\<open>move_player\<close>, and
  the state returned is the state given. When the player does move, the only cell that
  loses a box is \<open>p + d\<close>, and that box stands one cell further.
\<close>

theorem push_into_box_fails:
  assumes "0 \<le> vx p" "0 \<le> vy p" and "access p (tiles s) = Inr PLAYER"
  shows "(is_inbounds s (add p d) \<and> access (add p d) (tiles s) = Inr BOX \<and>
          is_inbounds s (add (add p d) d) \<and> access (add (add p d) d) (tiles s) = Inr BOX
          \<longrightarrow> move_box s (add p d) d = Inr (False, s) \<and> move_player s p d = Inr (False, s))
       \<and> (\<forall>s' q. move_player s p d = Inr (True, s') \<and> is_inbounds s q \<and>
             access q (tiles s) = Inr BOX \<and> access q (tiles s') \<noteq> Inr BOX
             \<longrightarrow> q = add p d \<and> access (add q d) (tiles s') = Inr BOX)"
proof -
  have first: "move_box s (add p d) d = Inr (False, s) \<and> move_player s p d = Inr (False, s)"
    if a: "is_inbounds s (add p d) \<and> access (add p d) (tiles s) = Inr BOX \<and>
          is_inbounds s (add (add p d) d) \<and> access (add (add p d) d) (tiles s) = Inr BOX"
  proof -
    from a have nn: "0 \<le> vx (add p d)" "0 \<le> vy (add p d)" "0 \<le> vx (add (add p d) d)" "0 \<le> vy (add (add p d) d)"
      by (simp_all add: is_inbounds_def)
    from a nn have t: "cell_ok (tiles s) (add p d)" "cell (tiles s) (add p d) = BOX"
      and u: "cell_ok (tiles s) (add (add p d) d)" "cell (tiles s) (add (add p d) d) = BOX"
      by (simp_all add: access_nonneg split: if_splits)
    from a t u have "move_box s (add p d) d = Inr (False, s)"
      by (simp add: move_box_nonneg [OF nn(1,2)] Let_def)
    moreover from a t u have "move_player s p d = Inr (False, s)"
      by (simp add: move_player_nonneg [OF assms(1,2)] Let_def)
    ultimately show ?thesis by simp
  qed
  have second: "q = add p d \<and> access (add q d) (tiles s') = Inr BOX"
    if a: "move_player s p d = Inr (True, s') \<and> is_inbounds s q \<and>
             access q (tiles s) = Inr BOX \<and> access q (tiles s') \<noteq> Inr BOX" for s' q
  proof -
    let ?t = "add p d" and ?u = "add (add p d) d"
    from assms have pc: "cell_ok (tiles s) p" "cell (tiles s) p = PLAYER"
      by (simp_all add: access_nonneg split: if_splits)
    from a have qn: "0 \<le> vx q" "0 \<le> vy q" by (simp_all add: is_inbounds_def)
    with a have qc: "cell_ok (tiles s) q" "cell (tiles s) q = BOX"
      by (simp_all add: access_nonneg split: if_splits)
    from a have mv: "move_player s p d = Inr (True, s')" by simp
    then have tin: "is_inbounds s ?t"
      by (simp add: move_player_nonneg [OF assms(1,2)] Let_def split: if_splits)
    then have tn: "0 \<le> vx ?t" "0 \<le> vy ?t" by (simp_all add: is_inbounds_def)
    from mv tin have tc: "cell_ok (tiles s) ?t"
      by (simp add: move_player_nonneg [OF assms(1,2)] Let_def split: if_splits)
    show ?thesis
    proof (cases "cell (tiles s) ?t = BOX")
      case False
      with mv tin tc pc have s': "tiles s' = put (put (tiles s) p EMPTY) ?t PLAYER"
        by (auto simp: move_player_nonneg [OF assms(1,2)] Let_def split: if_splits)
      from False qc have "q \<noteq> ?t" by auto
      moreover from pc qc have "q \<noteq> p" by auto
      ultimately have "cell (tiles s') q = BOX"
        using qc qn pc tc by (simp add: s' cell_put)
      with a qn qc show ?thesis by (simp add: access_nonneg s')
    next
      case True
      with mv tin tc pc have uin: "is_inbounds s ?u"
        by (simp add: move_player_nonneg [OF assms(1,2)] Let_def split: if_splits)
      then have un: "0 \<le> vx ?u" "0 \<le> vy ?u" by (simp_all add: is_inbounds_def)
      from True mv tin tc pc uin have uc: "cell_ok (tiles s) ?u"
        and s': "tiles s' = put (put (put (put (tiles s) ?t EMPTY) ?u BOX) p EMPTY) ?t PLAYER"
        and ub: "cell (tiles s) ?u \<noteq> BOX"
        by (auto simp: move_player_nonneg [OF assms(1,2)] Let_def split: if_splits)
      from True pc have tp: "?t \<noteq> p" by auto
      with add_add_neq [of p d] have up: "?u \<noteq> p" by auto
      from tp add_inj_left [of ?t d p] have ut: "?u \<noteq> ?t" by auto
      have q: "q = ?t"
      proof (rule ccontr)
        assume "q \<noteq> ?t"
        moreover from pc qc have "q \<noteq> p" by auto
        ultimately have "cell (tiles s') q = BOX"
          using qc qn pc tc uc by (simp add: s' cell_put)
        with a qn qc show False by (simp add: access_nonneg s')
      qed
      have "cell (tiles s') ?u = BOX"
        using up ut un pc tc uc by (simp add: s' cell_put)
      with un uc q show ?thesis by (simp add: access_nonneg s')
    qed
  qed
  from first second show ?thesis by blast
qed

theorem push_into_box_fails_witness:
  "access (Vector2 0 0) (tiles two_boxes_level) = Inr PLAYER
   \<and> is_inbounds two_boxes_level (add (Vector2 0 0) RIGHT)
   \<and> access (add (Vector2 0 0) RIGHT) (tiles two_boxes_level) = Inr BOX
   \<and> is_inbounds two_boxes_level (add (add (Vector2 0 0) RIGHT) RIGHT)
   \<and> access (add (add (Vector2 0 0) RIGHT) RIGHT) (tiles two_boxes_level) = Inr BOX
   \<and> move_box two_boxes_level (add (Vector2 0 0) RIGHT) RIGHT = Inr (False, two_boxes_level)
   \<and> move_player two_boxes_level (Vector2 0 0) RIGHT = Inr (False, two_boxes_level)
   \<and> move [two_boxes_level] (Game_init 0) RIGHT =
        Inr (False, [two_boxes_level, two_boxes_level], Game_init 0)
   \<and> access (Vector2 0 0) (tiles spare_target_level) = Inr PLAYER
   \<and> move_player spare_target_level (Vector2 0 0) RIGHT =
        Inr (True, spare_target_level\<lparr>tiles := [[EMPTY, PLAYER, BOX]]\<rparr>)
   \<and> is_inbounds spare_target_level (Vector2 0 1)
   \<and> access (Vector2 0 1) (tiles spare_target_level) = Inr BOX
   \<and> access (Vector2 0 1) (tiles (spare_target_level\<lparr>tiles := [[EMPTY, PLAYER, BOX]]\<rparr>)) \<noteq> Inr BOX
   \<and> Vector2 0 1 = add (Vector2 0 0) RIGHT
   \<and> access (add (Vector2 0 1) RIGHT) (tiles (spare_target_level\<lparr>tiles := [[EMPTY, PLAYER, BOX]]\<rparr>)) = Inr BOX"
proof -
  have pl: "access (Vector2 0 0) (tiles two_boxes_level) = Inr PLAYER"
    and b1: "is_inbounds two_boxes_level (add (Vector2 0 0) RIGHT)"
       "access (add (Vector2 0 0) RIGHT) (tiles two_boxes_level) = Inr BOX"
    and b2: "is_inbounds two_boxes_level (add (add (Vector2 0 0) RIGHT) RIGHT)"
       "access (add (add (Vector2 0 0) RIGHT) RIGHT) (tiles two_boxes_level) = Inr BOX"
    by code_simp+
  have g: "move [two_boxes_level] (Game_init 0) RIGHT =
        Inr (False, [two_boxes_level, two_boxes_level], Game_init 0)"
    by code_simp
  have pl': "access (Vector2 0 0) (tiles spare_target_level) = Inr PLAYER"
    and mv: "move_player spare_target_level (Vector2 0 0) RIGHT =
        Inr (True, spare_target_level\<lparr>tiles := [[EMPTY, PLAYER, BOX]]\<rparr>)"
    and q: "is_inbounds spare_target_level (Vector2 0 1)"
       "access (Vector2 0 1) (tiles spare_target_level) = Inr BOX"
       "access (Vector2 0 1) (tiles (spare_target_level\<lparr>tiles := [[EMPTY, PLAYER, BOX]]\<rparr>)) \<noteq> Inr BOX"
    by code_simp+
  have z: "(0::int) \<le> vx (Vector2 0 0)" "(0::int) \<le> vy (Vector2 0 0)"
    by simp_all
  from push_into_box_fails [OF z pl, of RIGHT] b1 b2
  have fails: "move_box two_boxes_level (add (Vector2 0 0) RIGHT) RIGHT = Inr (False, two_boxes_level)"
    "move_player two_boxes_level (Vector2 0 0) RIGHT = Inr (False, two_boxes_level)"
    by blast+
  from push_into_box_fails [OF z pl', of RIGHT] mv q
  have moved: "Vector2 0 1 = add (Vector2 0 0) RIGHT \<and>
      access (add (Vector2 0 1) RIGHT) (tiles (spare_target_level\<lparr>tiles := [[EMPTY, PLAYER, BOX]]\<rparr>)) = Inr BOX"
    by blast
  from pl b1 b2 g pl' mv q fails moved show ?thesis by blast
qed

section \<open>Scanning for the player\<close>

lemma positions_nonneg: "p \<in> set (positions s) \<Longrightarrow> 0 \<le> vx p \<and> 0 \<le> vy p"
  by (simp add: set_positions is_inbounds_nonneg)

lemma move_player_False:
  assumes "0 \<le> vx p" "0 \<le> vy p" and "move_player s p d = Inr (False, s')"
  shows "s' = s"
  using assms(3) unfolding move_player_nonneg [OF assms(1,2)]
  by (simp add: Let_def split: if_splits)

lemma move_scan_no_player:
  assumes "\<forall>p\<in>set ps. 0 \<le> vx p \<and> 0 \<le> vy p" and "PLAYER \<notin> set (concat (tiles sc))"
  shows "move_scan sc ps d = (if \<forall>p\<in>set ps. cell_ok (tiles sc) p then Inr (False, sc) else Inl IndexError)"
  using assms
proof (induction ps)
  case Nil
  then show ?case by simp
next
  case (Cons p ps)
  show ?case
  proof (cases "cell_ok (tiles sc) p")
    case False
    with Cons.prems show ?thesis by (simp add: access_nonneg)
  next
    case True
    from cell_in_concat [OF True] Cons.prems(2) have "cell (tiles sc) p \<noteq> PLAYER" by metis
    with True Cons show ?thesis by (simp add: access_nonneg)
  qed
qed

text \<open>
  C8, as amended. On a grid without a \<^verbatim>\<open>PLAYER\<close> tile \<^verbatim>\<open>move\<close> never returns true, and
  on a rectangular one it returns false: the history is the one before the call and the
  store has gained the discarded copy only. Nothing of the kind holds with several
  players: \<^verbatim>\<open>move\<close> returns true as soon as one of them can move.
\<close>

theorem move_without_player:
  assumes "current h g = Inr s" and "PLAYER \<notin> set (concat (tiles s))"
  shows "(\<forall>h' g'. move h g d \<noteq> Inr (True, h', g')) \<and>
         (rect s \<longrightarrow> move h g d = Inr (False, h @ [s], g))"
proof -
  from assms(1) have ne: "state g \<noteq> []" and s: "h ! last (state g) = s"
    by (auto simp: current_cases split: if_splits)
  have nn: "\<forall>p\<in>set (positions s). 0 \<le> vx p \<and> 0 \<le> vy p"
    using positions_nonneg by blast
  note scan = move_scan_no_player [OF nn assms(2), of d]
  have "rect s \<Longrightarrow> \<forall>p\<in>set (positions s). cell_ok (tiles s) p"
    by (simp add: set_positions rect_cell_ok)
  with scan ne s show ?thesis
    by (auto simp: move_cases)
qed

theorem move_without_player_witness:
  "current [no_player_level] (Game_init 0) = Inr no_player_level
   \<and> PLAYER \<notin> set (concat (tiles no_player_level))
   \<and> rect no_player_level
   \<and> move [no_player_level] (Game_init 0) LEFT =
        Inr (False, [no_player_level] @ [no_player_level], Game_init 0)"
proof -
  have c: "current [no_player_level] (Game_init 0) = Inr no_player_level"
    by code_simp
  have np: "PLAYER \<notin> set (concat (tiles no_player_level))"
    by (simp add: no_player_level_def)
  have r: "rect no_player_level"
    by (simp add: rect_def no_player_level_def)
  from move_without_player [OF c np, of LEFT] c np r show ?thesis by simp
qed

text \<open>
  C8, as stated, fails on \<^verbatim>\<open>p.p\<close>: the first of the two players steps right and
  \<^verbatim>\<open>move\<close> returns true, with a snapshot appended.
\<close>

theorem two_players_move_counterexample:
  "count_list (concat (tiles two_players_level)) PLAYER = 2 \<and>
   move [two_players_level] (Game_init 0) RIGHT =
     Inr (True, [two_players_level, two_players_level\<lparr>tiles := [[EMPTY, PLAYER, PLAYER]]\<rparr>],
          \<lparr>state = [0, 1]\<rparr>)"
  by code_simp

section \<open>Boxes are neither created nor destroyed\<close>

lemma count_list_update:
  "j < length xs \<Longrightarrow>
   count_list (xs[j := v]) x + (if xs ! j = x then 1 else 0) =
   count_list xs x + (if v = x then 1 else 0)"
proof (induction xs arbitrary: j)
  case Nil
  then show ?case by simp
next
  case (Cons y ys)
  show ?case
  proof (cases j)
    case 0
    then show ?thesis by simp
  next
    case (Suc k)
    with Cons.prems have "k < length ys" by simp
    from Cons.IH [OF this] Suc show ?thesis by (auto split: if_splits)
  qed
qed

lemma count_list_concat_update:
  "i < length a \<Longrightarrow>
   count_list (concat (a[i := r])) x + count_list (a ! i) x =
   count_list (concat a) x + count_list r x"
proof (induction a arbitrary: i)
  case Nil
  then show ?case by simp
next
  case (Cons y ys)
  show ?case
  proof (cases i)
    case 0
    then show ?thesis by simp
  next
    case (Suc k)
    with Cons.prems have "k < length ys" by simp
    from Cons.IH [OF this] Suc show ?thesis by simp
  qed
qed

lemma count_put:
  assumes "cell_ok a p"
  shows "count_list (concat (put a p v)) x + (if cell a p = x then 1 else 0) =
         count_list (concat a) x + (if v = x then 1 else 0)"
proof -
  let ?i = "nat (vx p)" and ?j = "nat (vy p)"
  from assms have i: "?i < length a" and j: "?j < length (a ! ?i)"
    by (auto simp: cell_ok_def nat_less_iff)
  from count_list_concat_update [OF i, of "(a ! ?i)[?j := v]" x] count_list_update [OF j, of v x]
  show ?thesis by (simp add: put_def cell_def)
qed

lemma count_put_same:
  assumes "cell_ok a p" "cell a p \<noteq> x" "v \<noteq> x"
  shows "count_list (concat (put a p v)) x = count_list (concat a) x"
  using count_put [OF assms(1), of v x] assms(2,3) by simp


lemma move_player_count:
  assumes nn: "0 \<le> vx p" "0 \<le> vy p" and pl: "access p (tiles s) = Inr PLAYER"
    and mv: "move_player s p d = Inr (ok, s')"
  shows "count_boxes s' = count_boxes s"
proof (cases ok)
  case False
  with mv have "move_player s p d = Inr (False, s')" by simp
  from move_player_False [OF nn this] show ?thesis by simp
next
  case True
  let ?t = "add p d" and ?u = "add (add p d) d"
  from nn pl have pc: "cell_ok (tiles s) p" "cell (tiles s) p = PLAYER"
    by (simp_all add: access_nonneg split: if_splits)
  from mv True have mv: "move_player s p d = Inr (True, s')" by simp
  then have tin: "is_inbounds s ?t"
    by (simp add: move_player_nonneg [OF nn] Let_def split: if_splits)
  from mv tin have tc: "cell_ok (tiles s) ?t"
    by (simp add: move_player_nonneg [OF nn] Let_def split: if_splits)
  from tin have tn: "0 \<le> vx ?t" "0 \<le> vy ?t" by (simp_all add: is_inbounds_def)
  show ?thesis
  proof (cases "cell (tiles s) ?t = BOX")
    case False
    with mv tin tc pc have s': "tiles s' = put (put (tiles s) p EMPTY) ?t PLAYER"
      by (auto simp: move_player_nonneg [OF nn] Let_def split: if_splits)
    have 1: "count_list (concat (put (tiles s) p EMPTY)) BOX = count_list (concat (tiles s)) BOX"
      using pc by (intro count_put_same) simp_all
    have "cell (put (tiles s) p EMPTY) ?t \<noteq> BOX"
      using False pc tn by (simp add: cell_put)
    then have "count_list (concat (put (put (tiles s) p EMPTY) ?t PLAYER)) BOX =
        count_list (concat (put (tiles s) p EMPTY)) BOX"
      using tc by (intro count_put_same) simp_all
    with 1 show ?thesis by (simp add: count_boxes_def s')
  next
    case True
    with mv tin tc pc have uin: "is_inbounds s ?u"
      by (simp add: move_player_nonneg [OF nn] Let_def split: if_splits)
    then have un: "0 \<le> vx ?u" "0 \<le> vy ?u" by (simp_all add: is_inbounds_def)
    from True mv tin tc pc uin have uc: "cell_ok (tiles s) ?u"
      and s': "tiles s' = put (put (put (put (tiles s) ?t EMPTY) ?u BOX) p EMPTY) ?t PLAYER"
      and ub: "cell (tiles s) ?u \<noteq> BOX"
      by (auto simp: move_player_nonneg [OF nn] Let_def split: if_splits)
    from True pc have tp: "?t \<noteq> p" by auto
    with add_add_neq [of p d] have up: "?u \<noteq> p" by auto
    from tp add_inj_left [of ?t d p] have ut: "?u \<noteq> ?t" by auto
    let ?a1 = "put (tiles s) ?t EMPTY"
    let ?a2 = "put ?a1 ?u BOX"
    let ?a3 = "put ?a2 p EMPTY"
    have 1: "count_list (concat ?a1) BOX + 1 = count_list (concat (tiles s)) BOX"
      using count_put [OF tc, of EMPTY BOX] True by simp
    have "cell ?a1 ?u \<noteq> BOX"
      using ub ut tc un by (simp add: cell_put)
    moreover have "cell_ok ?a1 ?u" using uc by simp
    ultimately have 2: "count_list (concat ?a2) BOX = count_list (concat ?a1) BOX + 1"
      using count_put [of ?a1 ?u BOX BOX] by simp
    have "cell ?a2 p \<noteq> BOX"
      using up tp pc tc uc nn by (simp add: cell_put)
    then have 3: "count_list (concat ?a3) BOX = count_list (concat ?a2) BOX"
      using pc by (intro count_put_same) simp_all
    have "cell ?a3 ?t \<noteq> BOX"
      using tp ut pc tc uc tn by (simp add: cell_put)
    then have 4: "count_list (concat (put ?a3 ?t PLAYER)) BOX = count_list (concat ?a3) BOX"
      using tc by (intro count_put_same) simp_all
    from 1 2 3 4 show ?thesis by (simp add: count_boxes_def s')
  qed
qed

lemma move_scan_count:
  assumes "\<forall>p\<in>set ps. 0 \<le> vx p \<and> 0 \<le> vy p" and "move_scan sc ps d = Inr (ok, sc')"
  shows "count_boxes sc' = count_boxes sc"
  using assms
proof (induction ps arbitrary: sc)
  case Nil
  then show ?case by simp
next
  case (Cons p ps)
  from Cons.prems(1) have nn: "0 \<le> vx p" "0 \<le> vy p" by simp_all
  from Cons.prems(2) obtain t where t: "access p (tiles sc) = Inr t"
    by (auto split: sum.splits)
  show ?case
  proof (cases "t = PLAYER")
    case False
    with Cons t show ?thesis by simp
  next
    case True
    with Cons.prems(2) t obtain ok1 s1 where m: "move_player sc p d = Inr (ok1, s1)"
      by (auto split: sum.splits)
    from move_player_count [OF nn _ m] t True have c: "count_boxes s1 = count_boxes sc" by simp
    show ?thesis
    proof (cases ok1)
      case True
      with Cons.prems(2) t \<open>t = PLAYER\<close> m c show ?thesis by simp
    next
      case False
      with Cons.prems(2) t \<open>t = PLAYER\<close> m have "move_scan s1 ps d = Inr (ok, sc')" by simp
      with Cons.IH [of s1] Cons.prems(1) c show ?thesis by simp
    qed
  qed
qed

lemma move_history_ok:
  assumes "history_ok n h g" and "move h g d = Inr (ok, h', g')"
  shows "history_ok n h' g'"
proof -
  let ?s = "h ! last (state g)"
  from assms(1) have ne: "state g \<noteq> []" and di: "distinct (state g)"
    and old: "\<And>a. a \<in> set (state g) \<Longrightarrow> a < length h \<and> count_boxes (h ! a) = n"
    by (simp_all add: history_ok_def)
  from assms(2) ne obtain sc where scan: "move_scan ?s (positions ?s) d = Inr (ok, sc)"
    and h': "h' = h @ [sc]" and g': "g' = (if ok then g\<lparr>state := state g @ [length h]\<rparr> else g)"
    by (auto simp: move_cases split: sum.splits if_splits)
  have "\<forall>p\<in>set (positions ?s). 0 \<le> vx p \<and> 0 \<le> vy p"
    using positions_nonneg by blast
  from move_scan_count [OF this scan] old [of "last (state g)"] ne
  have sc: "count_boxes sc = n" by simp
  have keep: "a < length h' \<and> count_boxes (h' ! a) = n" if "a \<in> set (state g)" for a
    using old [OF that] by (simp add: h' nth_append)
  have fresh: "length h \<notin> set (state g)" using old by auto
  show ?thesis
  proof (cases ok)
    case False
    with g' ne di keep show ?thesis by (simp add: history_ok_def)
  next
    case True
    with g' ne di keep fresh sc show ?thesis by (auto simp: history_ok_def h')
  qed
qed

lemma undo_history_ok:
  assumes "history_ok n h g" and "undo g = (ok, g')"
  shows "history_ok n h g'"
proof (cases "length (state g) > 1")
  case False
  with assms show ?thesis by (simp add: undo_def)
next
  case True
  then have "butlast (state g) \<noteq> []" by (cases "state g" rule: rev_cases) auto
  moreover have "set (butlast (state g)) \<subseteq> set (state g)" by (auto dest: in_set_butlastD)
  ultimately show ?thesis
    using assms True by (auto simp: undo_def history_ok_def distinct_butlast)
qed

lemma run_history_ok:
  assumes "history_ok n h g" and "run h g cmds = Inr (oks, h', g')"
  shows "history_ok n h' g'"
  using assms
proof (induction cmds arbitrary: h g oks)
  case Nil
  then show ?case by simp
next
  case (Cons c cmds)
  show ?case
  proof (cases c)
    case (Move d)
    with Cons.prems(2) obtain ok h1 g1 oks1 where m: "move h g d = Inr (ok, h1, g1)"
      and r: "run h1 g1 cmds = Inr (oks1, h', g')"
      by (auto split: sum.splits)
    from move_history_ok [OF Cons.prems(1) m] r Cons.IH show ?thesis by blast
  next
    case Undo
    with Cons.prems(2) obtain ok g1 oks1 where u: "undo g = (ok, g1)"
      and r: "run h g1 cmds = Inr (oks1, h', g')"
      by (auto split: sum.splits prod.splits)
    from undo_history_ok [OF Cons.prems(1) u] r Cons.IH show ?thesis by blast
  qed
qed

lemma initial_history_ok: "history_ok (count_boxes s0) [s0] (Game_init 0)"
  by (simp add: history_ok_def Game_init_def)

text \<open>
  C2. After any run of moves and undos from an initial grid, a parsed level in
  particular, the current grid holds as many boxes as the initial one.
\<close>

theorem box_count_invariant:
  assumes "run [s0] (Game_init 0) cmds = Inr (oks, h, g)"
  shows "\<exists>s. current h g = Inr s \<and> count_boxes s = count_boxes s0"
proof -
  from run_history_ok [OF initial_history_ok assms]
  have "history_ok (count_boxes s0) h g" .
  then have "state g \<noteq> []" "count_boxes (h ! last (state g)) = count_boxes s0"
    by (simp_all add: history_ok_def)
  then show ?thesis by (simp add: current_cases)
qed


theorem box_count_invariant_witness:
  "parse_level spare_target_text = Some spare_target_level
   \<and> run [spare_target_level] (Game_init 0) [Move RIGHT, Undo, Move LEFT, Move RIGHT] =
        Inr ([True, True, False, True],
             [spare_target_level, spare_target_level\<lparr>tiles := [[EMPTY, PLAYER, BOX]]\<rparr>,
              spare_target_level, spare_target_level\<lparr>tiles := [[EMPTY, PLAYER, BOX]]\<rparr>],
             \<lparr>state = [0, 3]\<rparr>)
   \<and> current [spare_target_level, spare_target_level\<lparr>tiles := [[EMPTY, PLAYER, BOX]]\<rparr>,
              spare_target_level, spare_target_level\<lparr>tiles := [[EMPTY, PLAYER, BOX]]\<rparr>]
         \<lparr>state = [0, 3]\<rparr> = Inr (spare_target_level\<lparr>tiles := [[EMPTY, PLAYER, BOX]]\<rparr>)
   \<and> count_boxes (spare_target_level\<lparr>tiles := [[EMPTY, PLAYER, BOX]]\<rparr>) = count_boxes spare_target_level
   \<and> count_boxes spare_target_level = 1"
proof -
  have p: "parse_level spare_target_text = Some spare_target_level"
    by code_simp
  have r: "run [spare_target_level] (Game_init 0) [Move RIGHT, Undo, Move LEFT, Move RIGHT] =
        Inr ([True, True, False, True],
             [spare_target_level, spare_target_level\<lparr>tiles := [[EMPTY, PLAYER, BOX]]\<rparr>,
              spare_target_level, spare_target_level\<lparr>tiles := [[EMPTY, PLAYER, BOX]]\<rparr>],
             \<lparr>state = [0, 3]\<rparr>)"
    by code_simp
  have c: "current [spare_target_level, spare_target_level\<lparr>tiles := [[EMPTY, PLAYER, BOX]]\<rparr>,
              spare_target_level, spare_target_level\<lparr>tiles := [[EMPTY, PLAYER, BOX]]\<rparr>]
         \<lparr>state = [0, 3]\<rparr> = Inr (spare_target_level\<lparr>tiles := [[EMPTY, PLAYER, BOX]]\<rparr>)"
    by code_simp
  have n: "count_boxes spare_target_level = 1"
    by (simp add: count_boxes_def spare_target_level_def)
  from box_count_invariant [OF r] c
  have "count_boxes (spare_target_level\<lparr>tiles := [[EMPTY, PLAYER, BOX]]\<rparr>) = count_boxes spare_target_level"
    by simp
  with p r c n show ?thesis by blast
qed

section \<open>Undoing\<close>

lemma run_moves_all_True:
  assumes "run h g (map Move ds) = Inr (replicate (length ds) True, h', g')"
  shows "\<exists>new. g' = g\<lparr>state := state g @ new\<rparr> \<and> length new = length ds \<and> take (length h) h' = h"
  using assms
proof (induction ds arbitrary: h g)
  case Nil
  then show ?case by simp
next
  case (Cons d ds)
  from Cons.prems obtain h1 g1 where m: "move h g d = Inr (True, h1, g1)"
    and r: "run h1 g1 (map Move ds) = Inr (replicate (length ds) True, h', g')"
    by (auto split: sum.splits)
  from m obtain sc where h1: "h1 = h @ [sc]" and g1: "g1 = g\<lparr>state := state g @ [length h]\<rparr>"
    by (auto simp: move_cases split: sum.splits if_splits)
  from Cons.IH [OF r] obtain new where g': "g' = g1\<lparr>state := state g1 @ new\<rparr>"
    and len: "length new = length ds" and tk: "take (length h1) h' = h1"
    by blast
  have "take (length h) h' = take (length h) (take (length h1) h')"
    by (simp add: h1 min_def)
  also have "\<dots> = h" by (simp add: tk) (simp add: h1)
  finally have "take (length h) h' = h" .
  moreover from g' g1 have "g' = g\<lparr>state := state g @ (length h # new)\<rparr>" by simp
  moreover from len have "length (length h # new) = length (d # ds)" by simp
  ultimately show ?case by blast
qed

lemma run_undos:
  assumes "state g \<noteq> []"
  shows "run h (g\<lparr>state := state g @ new\<rparr>) (replicate (length new) Undo) =
         Inr (replicate (length new) True, h, g)"
proof (induction new rule: rev_induct)
  case Nil
  then show ?case by simp
next
  case (snoc a new)
  from assms have "undo (g\<lparr>state := state g @ new @ [a]\<rparr>) = (True, g\<lparr>state := state g @ new\<rparr>)"
    by (cases "state g") (simp_all add: undo_def butlast_append)
  with snoc show ?case by simp
qed

text \<open>
  C4. After \<open>k\<close> moves that all returned true from the initial state, \<open>k\<close> calls of
  \<^verbatim>\<open>undo\<close> all return true and leave the history holding the initial snapshot alone,
  with the value it had; one more \<^verbatim>\<open>undo\<close> returns false and leaves that history as
  it is.
\<close>

theorem undo_restores_initial:
  assumes "run [s0] (Game_init 0) (map Move ds) = Inr (replicate (length ds) True, h, g)"
  shows "run h g (replicate (length ds) Undo) = Inr (replicate (length ds) True, h, Game_init 0)
         \<and> state (Game_init 0) = [0] \<and> current h (Game_init 0) = Inr s0
         \<and> undo (Game_init 0) = (False, Game_init 0)"
proof -
  from run_moves_all_True [OF assms] obtain new
    where g: "g = (Game_init 0)\<lparr>state := state (Game_init 0) @ new\<rparr>"
      and len: "length new = length ds" and tk: "take (length [s0]) h = [s0]"
    by blast
  have ne: "state (Game_init 0) \<noteq> []" by (simp add: Game_init_def)
  from run_undos [OF ne, of h new] g len
  have "run h g (replicate (length ds) Undo) = Inr (replicate (length ds) True, h, Game_init 0)"
    by simp
  moreover from tk have "h ! 0 = s0" by (cases h) simp_all
  then have "current h (Game_init 0) = Inr s0" by (simp add: current_cases Game_init_def)
  moreover have "undo (Game_init 0) = (False, Game_init 0)" by (simp add: undo_def Game_init_def)
  ultimately show ?thesis by (simp add: Game_init_def)
qed

theorem undo_restores_initial_witness:
  "run [spare_target_level] (Game_init 0) (map Move [RIGHT, LEFT]) =
     Inr (replicate (length [RIGHT, LEFT]) True,
          [spare_target_level, spare_target_level\<lparr>tiles := [[EMPTY, PLAYER, BOX]]\<rparr>,
           spare_target_level\<lparr>tiles := [[PLAYER, EMPTY, BOX]]\<rparr>],
          \<lparr>state = [0, 1, 2]\<rparr>)
   \<and> run [spare_target_level, spare_target_level\<lparr>tiles := [[EMPTY, PLAYER, BOX]]\<rparr>,
           spare_target_level\<lparr>tiles := [[PLAYER, EMPTY, BOX]]\<rparr>]
          \<lparr>state = [0, 1, 2]\<rparr> (replicate (length [RIGHT, LEFT]) Undo) =
     Inr (replicate (length [RIGHT, LEFT]) True,
          [spare_target_level, spare_target_level\<lparr>tiles := [[EMPTY, PLAYER, BOX]]\<rparr>,
           spare_target_level\<lparr>tiles := [[PLAYER, EMPTY, BOX]]\<rparr>],
          Game_init 0)
   \<and> current [spare_target_level, spare_target_level\<lparr>tiles := [[EMPTY, PLAYER, BOX]]\<rparr>,
           spare_target_level\<lparr>tiles := [[PLAYER, EMPTY, BOX]]\<rparr>] (Game_init 0) = Inr spare_target_level
   \<and> undo (Game_init 0) = (False, Game_init 0)"
proof -
  have r: "run [spare_target_level] (Game_init 0) (map Move [RIGHT, LEFT]) =
     Inr (replicate (length [RIGHT, LEFT]) True,
          [spare_target_level, spare_target_level\<lparr>tiles := [[EMPTY, PLAYER, BOX]]\<rparr>,
           spare_target_level\<lparr>tiles := [[PLAYER, EMPTY, BOX]]\<rparr>],
          \<lparr>state = [0, 1, 2]\<rparr>)"
    by code_simp
  from undo_restores_initial [OF r] r show ?thesis by blast
qed

section \<open>Snapshots are separate objects\<close>

text \<open>
  The moves on the heap compute what the moves on values compute, as long as the
  \<^verbatim>\<open>State\<close> object written to owns its rows; \<^verbatim>\<open>deepcopy\<close> allocates such an object, equal
  in value to the one copied and sharing nothing with any other.
\<close>

lemma norm_index_map: "norm_index (map f xs) i = norm_index xs i"
  by (simp add: norm_index_def)

lemma norm_index_less: "norm_index a i = Inr k \<Longrightarrow> k < length a"
  by (auto simp: norm_index_def split: if_splits)

lemma getitem_map:
  "getitem (map f xs) i = (case getitem xs i of Inl e \<Rightarrow> Inl e | Inr x \<Rightarrow> Inr (f x))"
  by (auto simp: getitem_def norm_index_map split: sum.splits dest: norm_index_less)

lemma access_ref_value: "access_ref h s p = access p (tiles (value_of h s))"
  by (simp add: access_ref_def access_def value_of_def getitem_map split: sum.splits)

lemma is_inbounds_ref_value: "is_inbounds_ref h s p = is_inbounds (value_of h s) p"
  by (simp add: is_inbounds_ref_def is_inbounds_def value_of_def)

lemma positions_ref_value: "positions_ref h s = positions (value_of h s)"
  by (simp add: positions_ref_def positions_def value_of_def)

lemma tiles_frame_refl [simp]: "tiles_frame h h s"
  by (simp add: tiles_frame_def)

lemma tiles_frame_refs:
  "tiles_frame h h' s \<Longrightarrow> tile_refs h' a = tile_refs h a \<and> mark_refs h' a = mark_refs h a"
  by (simp add: tiles_frame_def tile_refs_def mark_refs_def)

lemma tiles_frame_trans:
  "tiles_frame h h1 s \<Longrightarrow> tiles_frame h1 h2 s \<Longrightarrow> tiles_frame h h2 s"
  using tiles_frame_refs [of h h1 s s] by (auto simp: tiles_frame_def)

lemma tiles_frame_owns: "tiles_frame h h' s \<Longrightarrow> owns h a \<Longrightarrow> owns h' a"
  using tiles_frame_refs [of h h' s a] by (auto simp: owns_def tiles_frame_def)

lemma map_update_distinct:
  "distinct rs \<Longrightarrow> k < length rs \<Longrightarrow>
   map (\<lambda>q. if q = rs ! k then y else f q) rs = (map f rs)[k := y]"
  by (auto simp: list_eq_iff_nth_eq nth_list_update nth_eq_iff_index_eq)

lemma set_ref_sim:
  assumes "owns h s"
  shows "case set_ref h s p v of
           Inl e \<Rightarrow> set_vec p (tiles (value_of h s)) v = Inl e
         | Inr h' \<Rightarrow> set_vec p (tiles (value_of h s)) v = Inr (tiles (value_of h' s)) \<and>
                     tiles_frame h h' s"
proof (cases "norm_index (tile_refs h s) (vx p)")
  case (Inl e)
  then show ?thesis
    by (simp add: set_ref_def set_vec_def value_of_def getitem_def setitem_def norm_index_map)
next
  case (Inr k)
  let ?rs = "tile_refs h s" and ?r = "tile_refs h s ! k"
  from Inr have k: "k < length ?rs" by (rule norm_index_less)
  with assms have r: "?r < length (tile_rows h)" and di: "distinct ?rs"
    by (simp_all add: owns_def)
  show ?thesis
  proof (cases "setitem (tile_rows h ! ?r) (vy p) v")
    case (Inl e)
    with Inr k show ?thesis
      by (simp add: set_ref_def set_vec_def value_of_def getitem_def norm_index_map)
  next
    case row': (Inr row')
    let ?h' = "h\<lparr>tile_rows := (tile_rows h)[?r := row']\<rparr>"
    have refs: "tile_refs ?h' s = ?rs" by (simp add: tile_refs_def)
    have "map ((!) ((tile_rows h)[?r := row'])) ?rs =
          map (\<lambda>q. if q = ?r then row' else tile_rows h ! q) ?rs"
      using assms r by (auto simp: owns_def nth_list_update)
    also have "\<dots> = (map ((!) (tile_rows h)) ?rs)[k := row']"
      using di k by (rule map_update_distinct)
    finally have tl: "tiles (value_of ?h' s) = (map ((!) (tile_rows h)) ?rs)[k := row']"
      by (simp add: value_of_def refs)
    have "(tile_rows h)[?r := row'] ! q = tile_rows h ! q" if "q \<notin> set ?rs" for q
    proof -
      from k have "?r \<in> set ?rs" by simp
      with that have "q \<noteq> ?r" by auto
      then show ?thesis by simp
    qed
    then have fr: "tiles_frame h ?h' s"
      by (simp add: tiles_frame_def)
    from Inr k row' tl fr show ?thesis
      by (simp add: set_ref_def set_vec_def value_of_def getitem_def setitem_def norm_index_map)
  qed
qed

lemma sim_Inl [simp]: "sim s h (Inl e) V \<longleftrightarrow> V = Inl e"
  by (simp add: sim_def)

lemma sim_Inr [simp]:
  "sim s h (Inr (ok, h')) V \<longleftrightarrow> V = Inr (ok, value_of h' s) \<and> tiles_frame h h' s"
  by (simp add: sim_def)

lemma sim_trans:
  "tiles_frame h h1 s \<Longrightarrow> sim s h1 R V \<Longrightarrow> sim s h R V"
  by (auto simp: sim_def tiles_frame_trans split: sum.splits)

lemma value_of_frame:
  "tiles_frame h h' s \<Longrightarrow> value_of h' a = (value_of h a)\<lparr>tiles := tiles (value_of h' a)\<rparr>"
  using tiles_frame_refs [of h h' s a] by (simp add: value_of_def tiles_frame_def)

lemma shift_tile_sim:
  assumes "owns h s"
  shows "sim s h (shift_tile_ref h s a b t) (shift_tile (value_of h s) a b t)"
proof (cases "set_ref h s a EMPTY")
  case (Inl e)
  with set_ref_sim [OF assms, of a EMPTY] show ?thesis
    by (simp add: shift_tile_ref_def shift_tile_def)
next
  case h1: (Inr h1)
  with set_ref_sim [OF assms, of a EMPTY]
  have v1: "set_vec a (tiles (value_of h s)) EMPTY = Inr (tiles (value_of h1 s))"
    and f1: "tiles_frame h h1 s" by simp_all
  from tiles_frame_owns [OF f1 assms] have o1: "owns h1 s" .
  show ?thesis
  proof (cases "set_ref h1 s b t")
    case (Inl e)
    with set_ref_sim [OF o1, of b t] h1 v1 show ?thesis
      by (simp add: shift_tile_ref_def shift_tile_def)
  next
    case h2: (Inr h2)
    with set_ref_sim [OF o1, of b t]
    have v2: "set_vec b (tiles (value_of h1 s)) t = Inr (tiles (value_of h2 s))"
      and f2: "tiles_frame h1 h2 s" by simp_all
    from tiles_frame_trans [OF f1 f2] have f: "tiles_frame h h2 s" .
    from value_of_frame [OF f, of s] h1 h2 v1 v2 f show ?thesis
      by (simp add: shift_tile_ref_def shift_tile_def)
  qed
qed

lemma move_box_sim:
  assumes "owns h s"
  shows "sim s h (move_box_ref h s b d) (move_box (value_of h s) b d)"
  using shift_tile_sim [OF assms, of b "add b d" BOX]
  by (simp add: move_box_ref.simps [of h s b d] move_box.simps [of "value_of h s" b d]
      Let_def is_inbounds_ref_value access_ref_value CAN_MULTIPUSH_def split: sum.splits)

lemma move_player_sim:
  assumes "owns h s"
  shows "sim s h (move_player_ref h s p d) (move_player (value_of h s) p d)"
proof (cases "is_inbounds (value_of h s) (add p d)")
  case False
  then show ?thesis
    by (simp add: move_player_ref_def move_player_def Let_def is_inbounds_ref_value)
next
  case inb: True
  show ?thesis
  proof (cases "access (add p d) (tiles (value_of h s))")
    case (Inl e)
    with inb show ?thesis
      by (simp add: move_player_ref_def move_player_def Let_def is_inbounds_ref_value
          access_ref_value)
  next
    case t: (Inr t)
    show ?thesis
    proof (cases "t = BOX")
      case False
      with inb t shift_tile_sim [OF assms, of p "add p d" PLAYER] show ?thesis
        by (simp add: move_player_ref_def move_player_def Let_def is_inbounds_ref_value
            access_ref_value)
    next
      case True
      note box = move_box_sim [OF assms, of "add p d" d]
      show ?thesis
      proof (cases "move_box_ref h s (add p d) d")
        case (Inl e)
        with box inb t True show ?thesis
          by (simp add: move_player_ref_def move_player_def Let_def is_inbounds_ref_value
              access_ref_value)
      next
        case (Inr r)
        then obtain ok h1 where r: "move_box_ref h s (add p d) d = Inr (ok, h1)"
          by (cases r) simp
        with box have v: "move_box (value_of h s) (add p d) d = Inr (ok, value_of h1 s)"
          and f1: "tiles_frame h h1 s" by simp_all
        from tiles_frame_owns [OF f1 assms] have o1: "owns h1 s" .
        from sim_trans [OF f1 shift_tile_sim [OF o1, of p "add p d" PLAYER]]
        have "sim s h (shift_tile_ref h1 s p (add p d) PLAYER)
                (shift_tile (value_of h1 s) p (add p d) PLAYER)" .
        with inb t True r v f1 show ?thesis
          by (simp add: move_player_ref_def move_player_def Let_def is_inbounds_ref_value
              access_ref_value)
      qed
    qed
  qed
qed

lemma move_scan_sim:
  assumes "owns h s"
  shows "sim s h (move_scan_ref h s ps d) (move_scan (value_of h s) ps d)"
  using assms
proof (induction ps arbitrary: h)
  case Nil
  then show ?case by simp
next
  case (Cons p ps)
  show ?case
  proof (cases "access p (tiles (value_of h s))")
    case (Inl e)
    then show ?thesis by (simp add: access_ref_value)
  next
    case t: (Inr t)
    show ?thesis
    proof (cases "t = PLAYER")
      case False
      with t Cons show ?thesis by (simp add: access_ref_value)
    next
      case True
      note pl = move_player_sim [OF Cons.prems, of p d]
      show ?thesis
      proof (cases "move_player_ref h s p d")
        case (Inl e)
        with pl t True show ?thesis by (simp add: access_ref_value)
      next
        case (Inr r)
        then obtain ok h1 where r: "move_player_ref h s p d = Inr (ok, h1)"
          by (cases r) simp
        with pl have v: "move_player (value_of h s) p d = Inr (ok, value_of h1 s)"
          and f1: "tiles_frame h h1 s" by simp_all
        from tiles_frame_owns [OF f1 Cons.prems] have o1: "owns h1 s" .
        from sim_trans [OF f1 Cons.IH [OF o1]] t True r v f1 show ?thesis
          by (cases ok) (simp_all add: access_ref_value)
      qed
    qed
  qed
qed

lemma copy_rows_eq:
  "\<forall>r\<in>set rs. r < length rows \<Longrightarrow>
   copy_rows rows rs = (rows @ map ((!) rows) rs, [length rows..<length rows + length rs])"
proof (induction rs arbitrary: rows)
  case Nil
  then show ?case by simp
next
  case (Cons r rs)
  from Cons.prems have v: "\<forall>q\<in>set rs. q < length (rows @ [rows ! r])" by auto
  from Cons.prems have m: "map ((!) (rows @ [rows ! r])) rs = map ((!) rows) rs"
    by (auto simp: nth_append)
  have u: "[length rows..<length rows + length (r # rs)] =
      length rows # [length (rows @ [rows ! r])..<length (rows @ [rows ! r]) + length rs]"
    by (subst upt_rec) simp
  show ?case
    unfolding copy_rows.simps Cons.IH [OF v] m u by simp
qed

lemma map_nth_appended: "map ((!) (xs @ ys)) [length xs..<length xs + length ys] = ys"
proof -
  have "[length xs..<length xs + length ys] = map (\<lambda>i. i + length xs) [0..<length ys]"
    by (simp add: map_add_upt add.commute)
  then have "map ((!) (xs @ ys)) [length xs..<length xs + length ys] =
      map (\<lambda>i. (xs @ ys) ! (i + length xs)) [0..<length ys]"
    by (simp add: comp_def)
  also have "\<dots> = map ((!) ys) [0..<length ys]"
    by (simp add: nth_append)
  also have "\<dots> = ys" by (rule map_nth)
  finally show ?thesis .
qed

lemma extends_old:
  assumes "extends h h'" and "owns h a"
  shows "owns h' a" and "tile_refs h' a = tile_refs h a" and "mark_refs h' a = mark_refs h a"
    and "state_objs h' ! a = state_objs h ! a" and "value_of h' a = value_of h a"
proof -
  from assms(1) obtain trs mrs rls sos where h': "h' = \<lparr>tile_rows = tile_rows h @ trs,
      mark_rows = mark_rows h @ mrs, ref_lists = ref_lists h @ rls,
      state_objs = state_objs h @ sos\<rparr>"
    by (auto simp: extends_def)
  from assms(2) show so: "state_objs h' ! a = state_objs h ! a"
    by (simp add: h' owns_def nth_append)
  from assms(2) so show tr: "tile_refs h' a = tile_refs h a"
    by (simp add: tile_refs_def) (simp add: h' owns_def nth_append)
  from assms(2) so show mr: "mark_refs h' a = mark_refs h a"
    by (simp add: mark_refs_def) (simp add: h' owns_def nth_append)
  from assms(2) have t: "map ((!) (tile_rows h')) (tile_refs h a) = map ((!) (tile_rows h)) (tile_refs h a)"
    and m: "map ((!) (mark_rows h')) (mark_refs h a) = map ((!) (mark_rows h)) (mark_refs h a)"
    by (auto simp: h' owns_def nth_append)
  from so tr mr t m show "value_of h' a = value_of h a"
    by (simp add: value_of_def)
  from assms(2) so tr mr show "owns h' a"
    unfolding owns_def by (auto simp: h')
qed

lemma deepcopy_ref_eq:
  assumes "owns h s"
  shows "deepcopy_ref h s =
    (\<lparr>tile_rows = tile_rows h @ map ((!) (tile_rows h)) (tile_refs h s),
      mark_rows = mark_rows h @ map ((!) (mark_rows h)) (mark_refs h s),
      ref_lists = ref_lists h @
        [[length (tile_rows h)..<length (tile_rows h) + length (tile_refs h s)],
         [length (mark_rows h)..<length (mark_rows h) + length (mark_refs h s)]],
      state_objs = state_objs h @
        [StateObj (length (ref_lists h)) (Suc (length (ref_lists h)))
           (length_of (state_objs h ! s)) (width_of (state_objs h ! s))]\<rparr>,
     length (state_objs h))"
  using assms by (simp add: deepcopy_ref_def copy_rows_eq owns_def)

lemma deepcopy_ref_extends:
  assumes "owns h s" and "deepcopy_ref h s = (h1, c)"
  shows "extends h h1" and "c = length (state_objs h)"
    and "length (state_objs h1) = Suc (length (state_objs h))"
  using assms(2) unfolding deepcopy_ref_eq [OF assms(1)]
  by (auto simp: extends_def)

lemma deepcopy_ref_new:
  assumes "owns h s" and "deepcopy_ref h s = (h1, c)"
  shows "owns h1 c" and "value_of h1 c = value_of h s"
    and "\<forall>r\<in>set (tile_refs h1 c). length (tile_rows h) \<le> r"
    and "\<forall>r\<in>set (mark_refs h1 c). length (mark_rows h) \<le> r"
    and "length (ref_lists h) \<le> tiles_ref (state_objs h1 ! c)"
    and "length (ref_lists h) \<le> background_ref (state_objs h1 ! c)"
proof -
  from assms(2) have c: "c = length (state_objs h)"
    and h1: "h1 = \<lparr>tile_rows = tile_rows h @ map ((!) (tile_rows h)) (tile_refs h s),
      mark_rows = mark_rows h @ map ((!) (mark_rows h)) (mark_refs h s),
      ref_lists = ref_lists h @
        [[length (tile_rows h)..<length (tile_rows h) + length (tile_refs h s)],
         [length (mark_rows h)..<length (mark_rows h) + length (mark_refs h s)]],
      state_objs = state_objs h @
        [StateObj (length (ref_lists h)) (Suc (length (ref_lists h)))
           (length_of (state_objs h ! s)) (width_of (state_objs h ! s))]\<rparr>"
    unfolding deepcopy_ref_eq [OF assms(1)] by simp_all
  have so: "state_objs h1 ! c = StateObj (length (ref_lists h)) (Suc (length (ref_lists h)))
           (length_of (state_objs h ! s)) (width_of (state_objs h ! s))"
    by (simp add: h1 c)
  have "ref_lists h1 ! length (ref_lists h) =
      [length (tile_rows h)..<length (tile_rows h) + length (tile_refs h s)]"
    by (simp add: h1)
  then have tr: "tile_refs h1 c = [length (tile_rows h)..<length (tile_rows h) + length (tile_refs h s)]"
    by (simp add: tile_refs_def [of h1] so)
  have "ref_lists h1 ! Suc (length (ref_lists h)) =
      [length (mark_rows h)..<length (mark_rows h) + length (mark_refs h s)]"
    by (simp add: h1 nth_append)
  then have mr: "mark_refs h1 c = [length (mark_rows h)..<length (mark_rows h) + length (mark_refs h s)]"
    by (simp add: mark_refs_def [of h1] so)
  from tr show "\<forall>r\<in>set (tile_refs h1 c). length (tile_rows h) \<le> r" by simp
  from mr show "\<forall>r\<in>set (mark_refs h1 c). length (mark_rows h) \<le> r" by simp
  from so show "length (ref_lists h) \<le> tiles_ref (state_objs h1 ! c)"
    "length (ref_lists h) \<le> background_ref (state_objs h1 ! c)" by simp_all
  have "map ((!) (tile_rows h1)) (tile_refs h1 c) = map ((!) (tile_rows h)) (tile_refs h s)"
    unfolding tr using map_nth_appended [of "tile_rows h" "map ((!) (tile_rows h)) (tile_refs h s)"]
    by (simp add: h1)
  moreover have "map ((!) (mark_rows h1)) (mark_refs h1 c) = map ((!) (mark_rows h)) (mark_refs h s)"
    unfolding mr using map_nth_appended [of "mark_rows h" "map ((!) (mark_rows h)) (mark_refs h s)"]
    by (simp add: h1)
  ultimately show "value_of h1 c = value_of h s"
    by (simp add: value_of_def so)
  show "owns h1 c"
    unfolding owns_def tr mr so by (simp add: h1 c)
qed

lemma separate_owns: "separate h \<Longrightarrow> s < length (state_objs h) \<Longrightarrow> owns h s"
  by (simp add: separate_def)

lemma separate_tiles_disjoint:
  "separate h \<Longrightarrow> s < length (state_objs h) \<Longrightarrow> t < length (state_objs h) \<Longrightarrow> s \<noteq> t \<Longrightarrow>
   set (tile_refs h s) \<inter> set (tile_refs h t) = {}"
  by (simp add: separate_def)

lemma separate_deepcopy:
  assumes sep: "separate h" and s: "s < length (state_objs h)" and dc: "deepcopy_ref h s = (h1, c)"
  shows "separate h1"
proof -
  from sep s have os: "owns h s" by (rule separate_owns)
  note ext = deepcopy_ref_extends [OF os dc]
  note new = deepcopy_ref_new [OF os dc]
  have old: "owns h1 a \<and> tile_refs h1 a = tile_refs h a \<and> mark_refs h1 a = mark_refs h a \<and>
      state_objs h1 ! a = state_objs h ! a \<and> owns h a"
    if "a < length (state_objs h)" for a
    using extends_old [OF ext(1) separate_owns [OF sep that]] separate_owns [OF sep that] by simp
  have low: "(\<forall>r\<in>set (tile_refs h1 a). r < length (tile_rows h)) \<and>
      (\<forall>r\<in>set (mark_refs h1 a). r < length (mark_rows h)) \<and>
      tiles_ref (state_objs h1 ! a) < length (ref_lists h) \<and>
      background_ref (state_objs h1 ! a) < length (ref_lists h)"
    if "a < length (state_objs h)" for a
    using old [OF that] by (simp add: owns_def)
  have fresh: "set (tile_refs h1 a) \<inter> set (tile_refs h1 c) = {} \<and>
      set (mark_refs h1 a) \<inter> set (mark_refs h1 c) = {} \<and>
      {tiles_ref (state_objs h1 ! a), background_ref (state_objs h1 ! a)} \<inter>
      {tiles_ref (state_objs h1 ! c), background_ref (state_objs h1 ! c)} = {}"
    if "a < length (state_objs h)" for a
  proof (intro conjI)
    show "set (tile_refs h1 a) \<inter> set (tile_refs h1 c) = {}"
      using low [OF that] new(3) by fastforce
    show "set (mark_refs h1 a) \<inter> set (mark_refs h1 c) = {}"
      using low [OF that] new(4) by fastforce
    show "{tiles_ref (state_objs h1 ! a), background_ref (state_objs h1 ! a)} \<inter>
      {tiles_ref (state_objs h1 ! c), background_ref (state_objs h1 ! c)} = {}"
      using low [OF that] new(5,6) by auto
  qed
  have pair: "set (tile_refs h1 a) \<inter> set (tile_refs h1 b) = {} \<and>
      set (mark_refs h1 a) \<inter> set (mark_refs h1 b) = {} \<and>
      {tiles_ref (state_objs h1 ! a), background_ref (state_objs h1 ! a)} \<inter>
      {tiles_ref (state_objs h1 ! b), background_ref (state_objs h1 ! b)} = {}"
    if "a < length (state_objs h1)" "b < length (state_objs h1)" "a \<noteq> b" for a b
  proof -
    from that ext(3) consider "a < length (state_objs h)" "b < length (state_objs h)"
      | "a < length (state_objs h)" "b = c" | "a = c" "b < length (state_objs h)"
      using ext(2) by linarith
    then show ?thesis
    proof cases
      case 1
      with sep that(3) old [of a] old [of b] show ?thesis by (simp add: separate_def)
    next
      case 2
      with fresh [of a] show ?thesis by simp
    next
      case 3
      with fresh [of b] show ?thesis by (simp add: Int_commute)
    qed
  qed
  have "owns h1 a" if "a < length (state_objs h1)" for a
  proof (cases "a < length (state_objs h)")
    case True
    with old show ?thesis by simp
  next
    case False
    with that ext(2,3) have "a = c" by simp
    with new(1) show ?thesis by simp
  qed
  with pair show ?thesis unfolding separate_def by blast
qed

lemma frame_separate:
  assumes "separate h" and "tiles_frame h h' s"
  shows "separate h'"
proof -
  from assms(2) have so: "state_objs h' = state_objs h" by (simp add: tiles_frame_def)
  have refs: "tile_refs h' a = tile_refs h a \<and> mark_refs h' a = mark_refs h a" for a
    using tiles_frame_refs [OF assms(2)] by simp
  have "owns h' a" if "a < length (state_objs h)" for a
    using tiles_frame_owns [OF assms(2) separate_owns [OF assms(1) that]] .
  with assms(1) show ?thesis
    unfolding separate_def so by (simp add: refs)
qed

lemma frame_other:
  assumes sep: "separate h" and fr: "tiles_frame h h' s"
    and s: "s < length (state_objs h)" and a: "a < length (state_objs h)" and ne: "a \<noteq> s"
  shows "value_of h' a = value_of h a"
proof -
  from separate_tiles_disjoint [OF sep a s ne]
  have "\<forall>r\<in>set (tile_refs h a). r \<notin> set (tile_refs h s)" by auto
  with fr have "map ((!) (tile_rows h')) (tile_refs h a) = map ((!) (tile_rows h)) (tile_refs h a)"
    by (simp add: tiles_frame_def)
  with tiles_frame_refs [OF fr, of a] fr show ?thesis
    by (simp add: value_of_def tiles_frame_def)
qed

lemma snapshots_length [simp]: "length (snapshots h) = length (state_objs h)"
  by (simp add: snapshots_def)

lemma snapshots_nth: "a < length (state_objs h) \<Longrightarrow> snapshots h ! a = value_of h a"
  by (simp add: snapshots_def)

lemma snapshots_grow:
  assumes "length (state_objs h') = Suc (length (state_objs h))"
    and "\<forall>a<length (state_objs h). value_of h' a = value_of h a"
  shows "snapshots h' = snapshots h @ [value_of h' (length (state_objs h))]"
  using assms by (simp add: snapshots_def)

lemma move_ref_cases:
  "move_ref h g d =
     (if state g = [] then Inl IndexError
      else case deepcopy_ref h (last (state g)) of
        (h1, c) \<Rightarrow>
          (case move_scan_ref h1 c (positions_ref h1 c) d of Inl e \<Rightarrow> Inl e
           | Inr (ok, h2) \<Rightarrow>
               if ok then Inr (True, h2, g\<lparr>state := state g @ [c]\<rparr>)
               else Inr (False, h2, g)))"
  by (simp add: move_ref_def getitem_last)

lemma move_ref_sim:
  assumes hr: "history_refs h g"
  shows "case move_ref h g d of
           Inl e \<Rightarrow> move (snapshots h) g d = Inl e
         | Inr (ok, h', g') \<Rightarrow>
             move (snapshots h) g d = Inr (ok, snapshots h', g') \<and> history_refs h' g' \<and>
             g' = (if ok then g\<lparr>state := state g @ [length (state_objs h)]\<rparr> else g) \<and>
             (\<forall>a<length (state_objs h). value_of h' a = value_of h a) \<and>
             move_scan (value_of h (last (state g))) (positions (value_of h (last (state g)))) d =
               Inr (ok, value_of h' (length (state_objs h)))"
proof -
  let ?a = "last (state g)" and ?n = "length (state_objs h)"
  from hr have sep: "separate h" and ne: "state g \<noteq> []" and di: "distinct (state g)"
    and va: "\<forall>a\<in>set (state g). a < ?n"
    by (simp_all add: history_refs_def)
  from ne va have a: "?a < ?n" by simp
  from sep a have oa: "owns h ?a" by (rule separate_owns)
  obtain h1 c where dc: "deepcopy_ref h ?a = (h1, c)" by (cases "deepcopy_ref h ?a")
  note ext = deepcopy_ref_extends [OF oa dc]
  note new = deepcopy_ref_new [OF oa dc]
  from separate_deepcopy [OF sep a dc] have sep1: "separate h1" .
  have pos: "positions_ref h1 c = positions (value_of h ?a)"
    by (simp add: positions_ref_value new(2))
  note scan = move_scan_sim [OF new(1), of "positions_ref h1 c" d]
  have cur: "snapshots h ! ?a = value_of h ?a"
    using a by (rule snapshots_nth)
  show ?thesis
  proof (cases "move_scan_ref h1 c (positions_ref h1 c) d")
    case (Inl e)
    with scan have "move_scan (value_of h ?a) (positions (value_of h ?a)) d = Inl e"
      by (simp add: new(2) pos)
    with Inl ne dc cur show ?thesis
      by (simp add: move_ref_cases move_cases)
  next
    case (Inr r)
    then obtain ok h2 where r: "move_scan_ref h1 c (positions_ref h1 c) d = Inr (ok, h2)"
      by (cases r) simp
    with scan have v: "move_scan (value_of h ?a) (positions (value_of h ?a)) d = Inr (ok, value_of h2 c)"
      and fr: "tiles_frame h1 h2 c"
      by (simp_all add: new(2) pos)
    from frame_separate [OF sep1 fr] have sep2: "separate h2" .
    from fr ext(3) have len2: "length (state_objs h2) = Suc ?n"
      by (simp add: tiles_frame_def)
    have old: "value_of h2 b = value_of h b" if "b < ?n" for b
    proof -
      from that ext(2,3) have "b < length (state_objs h1)" "c < length (state_objs h1)" "b \<noteq> c"
        by simp_all
      from frame_other [OF sep1 fr this(2) this(1) this(3)]
      have "value_of h2 b = value_of h1 b" .
      also from extends_old(5) [OF ext(1) separate_owns [OF sep that]]
      have "\<dots> = value_of h b" .
      finally show ?thesis .
    qed
    then have snaps: "snapshots h2 = snapshots h @ [value_of h2 ?n]"
      using len2 by (intro snapshots_grow) simp_all
    let ?g' = "if ok then g\<lparr>state := state g @ [?n]\<rparr> else g"
    from r ne dc ext(2) have mr: "move_ref h g d = Inr (ok, h2, ?g')"
      by (simp add: move_ref_cases)
    from v ne cur ext(2) snaps have mv: "move (snapshots h) g d = Inr (ok, snapshots h2, ?g')"
      by (simp add: move_cases)
    from va have fresh: "?n \<notin> set (state g)" by auto
    from sep2 ne di va fresh len2 have hr': "history_refs h2 ?g'"
      by (auto simp: history_refs_def)
    from mr mv hr' old v ext(2) show ?thesis by simp
  qed
qed

lemma undo_history_refs:
  assumes "history_refs h g" and "undo g = (ok, g')"
  shows "history_refs h g'"
proof (cases "length (state g) > 1")
  case False
  with assms show ?thesis by (simp add: undo_def)
next
  case True
  then have "butlast (state g) \<noteq> []" by (cases "state g" rule: rev_cases) auto
  moreover have "set (butlast (state g)) \<subseteq> set (state g)" by (auto dest: in_set_butlastD)
  ultimately show ?thesis
    using assms True by (auto simp: undo_def history_refs_def distinct_butlast)
qed

lemma run_ref_sim:
  assumes "history_refs h g"
  shows "case run_ref h g cmds of
           Inl e \<Rightarrow> run (snapshots h) g cmds = Inl e
         | Inr (oks, h', g') \<Rightarrow>
             run (snapshots h) g cmds = Inr (oks, snapshots h', g') \<and> history_refs h' g'"
  using assms
proof (induction cmds arbitrary: h g)
  case Nil
  then show ?case by simp
next
  case (Cons c cmds)
  show ?case
  proof (cases c)
    case (Move d)
    note m = move_ref_sim [OF Cons.prems, of d]
    show ?thesis
    proof (cases "move_ref h g d")
      case (Inl e)
      with m Move show ?thesis by simp
    next
      case (Inr r)
      then obtain ok h1 g1 where r: "move_ref h g d = Inr (ok, h1, g1)"
        by (cases r) auto
      with m have mv: "move (snapshots h) g d = Inr (ok, snapshots h1, g1)"
        and hr1: "history_refs h1 g1" by auto
      from Cons.IH [OF hr1] r mv Move show ?thesis
        by (auto split: sum.splits)
    qed
  next
    case Undo
    obtain ok g1 where u: "undo g = (ok, g1)" by (cases "undo g")
    from undo_history_refs [OF Cons.prems u] have "history_refs h g1" .
    from Cons.IH [OF this] u Undo show ?thesis
      by (auto split: sum.splits)
  qed
qed

lemma new_heap_value: "value_of (new_heap s) 0 = s"
  by (simp add: value_of_def new_heap_def tile_refs_def mark_refs_def map_nth)

lemma new_heap_snapshots: "snapshots (new_heap s) = [s]"
  using new_heap_value [of s] by (simp add: snapshots_def) (simp add: new_heap_def)

lemma new_heap_history_refs: "history_refs (new_heap s) (Game_init 0)"
  by (simp add: history_refs_def separate_def owns_def Game_init_def)
     (simp add: new_heap_def tile_refs_def mark_refs_def)

lemma mutates_only_other:
  assumes sep: "separate h" and a: "a < length (state_objs h)" and b: "b < length (state_objs h)"
    and ne: "a \<noteq> b" and mu: "mutates_only h h' a"
  shows "value_of h' b = value_of h b"
proof -
  from sep b have ob: "owns h b" by (rule separate_owns)
  from sep a b ne have dis: "set (tile_refs h b) \<inter> set (tile_refs h a) = {}"
    "set (mark_refs h b) \<inter> set (mark_refs h a) = {}"
    "{tiles_ref (state_objs h ! b), background_ref (state_objs h ! b)} \<inter>
     {tiles_ref (state_objs h ! a), background_ref (state_objs h ! a)} = {}"
    by (simp_all add: separate_def)
  from mu b ne have so: "state_objs h' ! b = state_objs h ! b"
    by (simp add: mutates_only_def)
  from ob dis(3) mu have "ref_lists h' ! tiles_ref (state_objs h ! b) = ref_lists h ! tiles_ref (state_objs h ! b)"
    "ref_lists h' ! background_ref (state_objs h ! b) = ref_lists h ! background_ref (state_objs h ! b)"
    by (auto simp: mutates_only_def owns_def)
  with so have refs: "tile_refs h' b = tile_refs h b" "mark_refs h' b = mark_refs h b"
    by (simp_all add: tile_refs_def mark_refs_def)
  from ob dis(1) mu have "map ((!) (tile_rows h')) (tile_refs h b) = map ((!) (tile_rows h)) (tile_refs h b)"
    by (auto simp: mutates_only_def owns_def)
  moreover from ob dis(2) mu have "map ((!) (mark_rows h')) (mark_refs h b) = map ((!) (mark_rows h)) (mark_refs h b)"
    by (auto simp: mutates_only_def owns_def)
  ultimately show ?thesis
    by (simp add: value_of_def refs so)
qed

text \<open>
  C9. Take any game that a run of moves and undos reaches from a freshly built level,
  every list an object of its own. Its snapshots have the values of the run on values.
  The entries of its history are valid references to pairwise different \<^verbatim>\<open>State\<close>
  objects, and whatever is written to the objects of one entry (its rows, its lists
  of rows, its fields), the current one after an undo included, every other entry
  reads the value it read before. A move that returns true appends exactly one
  reference, to a \<^verbatim>\<open>State\<close> object allocated by that move; its value is the previous
  current grid with the move carried out, the older entries read what they read before
  the move, and they still do after any later write to the objects of the new snapshot.
\<close>

theorem snapshots_independent:
  assumes "run_ref (new_heap s0) (Game_init 0) cmds = Inr (oks, h, g)"
  shows "run [s0] (Game_init 0) cmds = Inr (oks, snapshots h, g)
       \<and> distinct (state g) \<and> (\<forall>a\<in>set (state g). a < length (state_objs h))
       \<and> (\<forall>a\<in>set (state g). \<forall>b\<in>set (state g). \<forall>h'.
             a \<noteq> b \<and> mutates_only h h' a \<longrightarrow> value_of h' b = value_of h b)
       \<and> (\<forall>d h1 g1. move_ref h g d = Inr (True, h1, g1) \<longrightarrow>
             state g1 = state g @ [length (state_objs h)]
             \<and> length (state_objs h) \<notin> set (state g)
             \<and> move_scan (value_of h (last (state g))) (positions (value_of h (last (state g)))) d =
                 Inr (True, value_of h1 (length (state_objs h)))
             \<and> (\<forall>a\<in>set (state g). value_of h1 a = value_of h a)
             \<and> (\<forall>h2. mutates_only h1 h2 (length (state_objs h)) \<longrightarrow>
                   (\<forall>a\<in>set (state g). value_of h2 a = value_of h a)))"
proof -
  from run_ref_sim [OF new_heap_history_refs, of s0 cmds] assms
  have run: "run [s0] (Game_init 0) cmds = Inr (oks, snapshots h, g)"
    and hr: "history_refs h g"
    by (simp_all add: new_heap_snapshots)
  then have sep: "separate h" and di: "distinct (state g)"
    and va: "\<forall>a\<in>set (state g). a < length (state_objs h)"
    by (simp_all add: history_refs_def)
  have ind: "value_of h' b = value_of h b"
    if "a \<in> set (state g)" "b \<in> set (state g)" "a \<noteq> b \<and> mutates_only h h' a" for a b h'
    using mutates_only_other [OF sep _ _ _ _, of a b h'] that va by blast
  have mv: "state g1 = state g @ [length (state_objs h)]
             \<and> length (state_objs h) \<notin> set (state g)
             \<and> move_scan (value_of h (last (state g))) (positions (value_of h (last (state g)))) d =
                 Inr (True, value_of h1 (length (state_objs h)))
             \<and> (\<forall>a\<in>set (state g). value_of h1 a = value_of h a)
             \<and> (\<forall>h2. mutates_only h1 h2 (length (state_objs h)) \<longrightarrow>
                   (\<forall>a\<in>set (state g). value_of h2 a = value_of h a))"
    if m: "move_ref h g d = Inr (True, h1, g1)" for d h1 g1
  proof -
    from move_ref_sim [OF hr, of d] m
    have hr1: "history_refs h1 g1" and g1: "g1 = g\<lparr>state := state g @ [length (state_objs h)]\<rparr>"
      and old: "\<forall>a<length (state_objs h). value_of h1 a = value_of h a"
      and new: "move_scan (value_of h (last (state g))) (positions (value_of h (last (state g)))) d =
                 Inr (True, value_of h1 (length (state_objs h)))"
      by auto
    from hr1 have sep1: "separate h1"
      and va1: "\<forall>a\<in>set (state g1). a < length (state_objs h1)"
      by (simp_all add: history_refs_def)
    from va have fresh: "length (state_objs h) \<notin> set (state g)" by auto
    have later: "value_of h2 a = value_of h a"
      if mu: "mutates_only h1 h2 (length (state_objs h))" and a: "a \<in> set (state g)" for h2 a
    proof -
      from a fresh have ne: "length (state_objs h) \<noteq> a" by auto
      from a va1 g1 have a1: "a < length (state_objs h1)"
        and n1: "length (state_objs h) < length (state_objs h1)" by simp_all
      from mutates_only_other [OF sep1 n1 a1 ne mu] have "value_of h2 a = value_of h1 a" .
      with old a va show ?thesis by simp
    qed
    from g1 fresh new old va later show ?thesis by simp
  qed
  from run di va ind mv show ?thesis by blast
qed

theorem snapshots_independent_witness:
  "run_ref (new_heap spare_target_level) (Game_init 0) [Move RIGHT, Undo] =
     Inr ([True, True], undone_heap, \<lparr>state = [0]\<rparr>)
   \<and> move_ref undone_heap \<lparr>state = [0]\<rparr> RIGHT = Inr (True, moved_heap, \<lparr>state = [0, 2]\<rparr>)
   \<and> value_of undone_heap 0 = spare_target_level
   \<and> value_of moved_heap 2 = spare_target_level\<lparr>tiles := [[EMPTY, PLAYER, BOX]]\<rparr>
   \<and> mutates_only moved_heap scribbled_heap 2
   \<and> value_of scribbled_heap 2 \<noteq> value_of moved_heap 2
   \<and> value_of scribbled_heap 0 = spare_target_level"
proof -
  have r: "run_ref (new_heap spare_target_level) (Game_init 0) [Move RIGHT, Undo] =
     Inr ([True, True], undone_heap, \<lparr>state = [0]\<rparr>)"
    by code_simp
  have m: "move_ref undone_heap \<lparr>state = [0]\<rparr> RIGHT = Inr (True, moved_heap, \<lparr>state = [0, 2]\<rparr>)"
    by code_simp
  have mu: "mutates_only moved_heap scribbled_heap 2"
    by code_simp
  have v: "value_of undone_heap 0 = spare_target_level"
    "value_of moved_heap 2 = spare_target_level\<lparr>tiles := [[EMPTY, PLAYER, BOX]]\<rparr>"
    "value_of scribbled_heap 2 \<noteq> value_of moved_heap 2"
    by code_simp+
  have n: "length (state_objs undone_heap) = 2"
    by (simp add: undone_heap_def)
  from snapshots_independent [OF r] m
  have "\<forall>h2. mutates_only moved_heap h2 (length (state_objs undone_heap)) \<longrightarrow>
          (\<forall>a\<in>set (state \<lparr>state = [0]\<rparr>). value_of h2 a = value_of undone_heap a)"
    by blast
  with mu n have "value_of scribbled_heap 0 = value_of undone_heap 0"
    by simp
  with r m mu v show ?thesis by simp
qed

section \<open>Parsing a level\<close>

lemma map_raise_Inr_iff:
  "map_raise f xs = Inr ys \<longleftrightarrow> list_all2 (\<lambda>x y. f x = Inr y) xs ys"
proof (induction xs arbitrary: ys)
  case Nil
  then show ?case by auto
next
  case (Cons x xs)
  show ?case
    by (auto simp: list_all2_Cons1 Cons.IH [symmetric] split: sum.splits)
qed

lemma map_raise_length: "map_raise f xs = Inr ys \<Longrightarrow> length ys = length xs"
  by (simp add: map_raise_Inr_iff list_all2_lengthD)

lemma map_raise_raises:
  "(\<exists>e. map_raise f xs = Inl e) \<longleftrightarrow> (\<exists>x\<in>set xs. \<exists>e. f x = Inl e)"
  by (induction xs) (auto split: sum.splits)

lemma parse_tile_raises: "(\<exists>e. parse_tile c = Inl e) \<longleftrightarrow> c \<notin> set ''.p#x''"
  by (simp add: parse_tile_def)

lemma parse_background_tile_raises: "(\<exists>e. parse_background_tile c = Inl e) \<longleftrightarrow> c \<notin> set ''.o''"
  by (simp add: parse_background_tile_def)

lemma State_init_cases:
  "State_init ts bs =
     (if ts = [] then Inl IndexError
      else Inr \<lparr>tiles = ts, background = bs,
                length_st = int (length ts), width_st = int (length (hd ts))\<rparr>)"
  by (cases ts) (simp_all add: State_init_def getitem_nonneg)

text \<open>The body of \<^verbatim>\<open>parse_level\<close> once the header is read.\<close>

lemma parse_level_try_header:
  assumes "splitlines txt = header # rest" and "map_raise py_int (split header) = Inr [len, wid]"
  shows "parse_level_try txt =
     (case map_raise (map_raise parse_tile) (py_slice (header # rest) 1 (len + 1)) of
        Inl e \<Rightarrow> Inl e
      | Inr ts \<Rightarrow>
          (case map_raise (map_raise parse_background_tile)
                  (py_slice (header # rest) (len + 1) (len * 2 + 1)) of
             Inl e \<Rightarrow> Inl e
           | Inr bs \<Rightarrow> State_init ts bs))"
  using assms by (simp add: parse_level_try_def getitem_nonneg Let_def)

lemma parse_level_try_Inr:
  assumes "parse_level_try txt = Inr s"
  shows "\<exists>header rest len wid. splitlines txt = header # rest \<and>
           map_raise py_int (split header) = Inr [len, wid]"
proof -
  from assms obtain header rest where l: "splitlines txt = header # rest"
    by (cases "splitlines txt") (auto simp: parse_level_try_def getitem_nonneg Let_def)
  with assms obtain ns where ns: "map_raise py_int (split header) = Inr ns"
    by (auto simp: parse_level_try_def getitem_nonneg Let_def split: sum.splits)
  with assms l obtain len wid where "ns = [len, wid]"
    by (auto simp: parse_level_try_def getitem_nonneg Let_def split: sum.splits list.splits)
  with l ns show ?thesis by blast
qed


lemma parse_level_no_lines: "splitlines txt = [] \<Longrightarrow> parse_level txt = None"
  by (simp add: parse_level_def parse_level_try_def getitem_def norm_index_def)

lemma parse_level_bad_header:
  assumes "\<forall>len wid. map_raise py_int (split (hd (splitlines txt))) \<noteq> Inr [len, wid]"
  shows "parse_level txt = None"
proof (cases "parse_level_try txt")
  case (Inl e)
  then show ?thesis by (simp add: parse_level_def)
next
  case (Inr s)
  from parse_level_try_Inr [OF this] assms show ?thesis by auto
qed

lemma rows_raise:
  "(\<exists>e. map_raise (map_raise f) rows = Inl e) \<longleftrightarrow>
   (\<exists>row\<in>set rows. \<exists>c\<in>set row. \<exists>e. f c = Inl e)"
  by (simp add: map_raise_raises)

lemma parse_level_good_header:
  assumes "splitlines txt = header # rest" and "map_raise py_int (split header) = Inr [len, wid]"
  shows "parse_level txt = None \<longleftrightarrow>
     py_slice (header # rest) 1 (len + 1) = [] \<or>
     (\<exists>row\<in>set (py_slice (header # rest) 1 (len + 1)). \<exists>c\<in>set row. c \<notin> set ''.p#x'') \<or>
     (\<exists>row\<in>set (py_slice (header # rest) (len + 1) (len * 2 + 1)). \<exists>c\<in>set row. c \<notin> set ''.o'')"
proof -
  let ?trows = "py_slice (header # rest) 1 (len + 1)"
  let ?brows = "py_slice (header # rest) (len + 1) (len * 2 + 1)"
  note body = parse_level_try_header [OF assms]
  have traise: "(\<exists>e. map_raise (map_raise parse_tile) ?trows = Inl e) \<longleftrightarrow>
      (\<exists>row\<in>set ?trows. \<exists>c\<in>set row. c \<notin> set ''.p#x'')"
    unfolding rows_raise parse_tile_raises ..
  have braise: "(\<exists>e. map_raise (map_raise parse_background_tile) ?brows = Inl e) \<longleftrightarrow>
      (\<exists>row\<in>set ?brows. \<exists>c\<in>set row. c \<notin> set ''.o'')"
    unfolding rows_raise parse_background_tile_raises ..
  show ?thesis
  proof (cases "map_raise (map_raise parse_tile) ?trows")
    case (Inl e)
    with traise body show ?thesis by (auto simp: parse_level_def)
  next
    case ts: (Inr ts)
    with traise have tgood: "\<not> (\<exists>row\<in>set ?trows. \<exists>c\<in>set row. c \<notin> set ''.p#x'')" by auto
    from ts have len: "length ts = length ?trows" by (rule map_raise_length)
    show ?thesis
    proof (cases "map_raise (map_raise parse_background_tile) ?brows")
      case (Inl e)
      with braise body ts show ?thesis by (auto simp: parse_level_def)
    next
      case (Inr bs)
      with braise have bgood: "\<not> (\<exists>row\<in>set ?brows. \<exists>c\<in>set row. c \<notin> set ''.o'')" by auto
      from Inr ts body have "parse_level txt = None \<longleftrightarrow> ts = []"
        by (simp add: parse_level_def State_init_cases)
      also from len have "ts = [] \<longleftrightarrow> ?trows = []" by auto
      finally show ?thesis using tgood bgood by blast
    qed
  qed
qed

text \<open>
  C5, as amended. \<^verbatim>\<open>parse_level\<close> returns \<^verbatim>\<open>None\<close> exactly for the texts that have no
  line, or whose first line does not split into two integer literals, or whose slice of
  tile rows \<^verbatim>\<open>lines[1:length+1]\<close> is empty or holds a character other than
  \<^verbatim>\<open>. p # x\<close>, or whose slice of background rows \<^verbatim>\<open>lines[length+1:2*length+1]\<close>
  holds a character other than \<^verbatim>\<open>. o\<close>. It raises on no text: the result is an option.
\<close>

theorem parse_level_None_iff:
  "parse_level txt = None \<longleftrightarrow>
     splitlines txt = [] \<or>
     (\<forall>len wid. map_raise py_int (split (hd (splitlines txt))) \<noteq> Inr [len, wid]) \<or>
     (\<exists>len wid. map_raise py_int (split (hd (splitlines txt))) = Inr [len, wid] \<and>
        (py_slice (splitlines txt) 1 (len + 1) = [] \<or>
         (\<exists>row\<in>set (py_slice (splitlines txt) 1 (len + 1)). \<exists>c\<in>set row. c \<notin> set ''.p#x'') \<or>
         (\<exists>row\<in>set (py_slice (splitlines txt) (len + 1) (len * 2 + 1)). \<exists>c\<in>set row. c \<notin> set ''.o'')))"
proof (cases "splitlines txt")
  case Nil
  then show ?thesis by (simp add: parse_level_no_lines)
next
  case (Cons header rest)
  show ?thesis
  proof (cases "\<exists>len wid. map_raise py_int (split header) = Inr [len, wid]")
    case False
    with Cons parse_level_bad_header [of "txt"] show ?thesis by simp
  next
    case True
    then obtain len wid where hd: "map_raise py_int (split header) = Inr [len, wid]" by blast
    from parse_level_good_header [OF Cons hd] Cons hd show ?thesis by simp
  qed
qed

theorem parse_level_None_iff_witness:
  "parse_level bad_tile_text = None
   \<and> map_raise py_int (split (hd (splitlines bad_tile_text))) = Inr [1, 2]
   \<and> py_slice (splitlines bad_tile_text) 1 (1 + 1) = [''pz'']
   \<and> (splitlines bad_tile_text = [] \<or>
     (\<forall>len wid. map_raise py_int (split (hd (splitlines bad_tile_text))) \<noteq> Inr [len, wid]) \<or>
     (\<exists>len wid. map_raise py_int (split (hd (splitlines bad_tile_text))) = Inr [len, wid] \<and>
        (py_slice (splitlines bad_tile_text) 1 (len + 1) = [] \<or>
         (\<exists>row\<in>set (py_slice (splitlines bad_tile_text) 1 (len + 1)). \<exists>c\<in>set row. c \<notin> set ''.p#x'') \<or>
         (\<exists>row\<in>set (py_slice (splitlines bad_tile_text) (len + 1) (len * 2 + 1)). \<exists>c\<in>set row. c \<notin> set ''.o''))))"
proof -
  have n: "parse_level bad_tile_text = None"
    by code_simp
  have h: "map_raise py_int (split (hd (splitlines bad_tile_text))) = Inr [1, 2]"
    by code_simp
  have r: "py_slice (splitlines bad_tile_text) 1 (1 + 1) = [''pz'']"
    by code_simp
  from n h r parse_level_None_iff [of bad_tile_text] show ?thesis by blast
qed

text \<open>
  C5, as stated, fails three times over. The second tile row of \<^verbatim>\<open>ragged_text\<close> has one
  character under a header of width two; \<^verbatim>\<open>no_background_text\<close> has two lines where a
  level of length one needs three; the header of \<^verbatim>\<open>negative_header_text\<close> gives a negative
  length. All three are accepted.
\<close>

theorem parse_level_accepts_counterexample:
  "split (hd (splitlines ragged_text)) = [''2'', ''2'']
   \<and> splitlines ragged_text ! 2 = ''.''
   \<and> parse_level ragged_text = Some ragged_level
   \<and> splitlines no_background_text = [''1 1'', ''p'']
   \<and> parse_level no_background_text =
        Some \<lparr>tiles = [[PLAYER]], background = [], length_st = 1, width_st = 1\<rparr>
   \<and> split (hd (splitlines negative_header_text)) = [''-2'', ''5'']
   \<and> parse_level negative_header_text =
        Some \<lparr>tiles = [[PLAYER, EMPTY]], background = [], length_st = 1, width_st = 2\<rparr>"
  by code_simp

lemma py_slice_same_tail:
  assumes "1 \<le> i \<or> (i < 0 \<and> j \<le> i)"
  shows "py_slice (x # xs) i j = py_slice (y # xs) i j"
proof -
  from assms consider "1 \<le> i" | "i < 0" "j \<le> i" by blast
  then show ?thesis
  proof cases
    case 1
    then have "min (nat i) (Suc (length xs)) = Suc (min (nat i - 1) (length xs))"
      by (simp add: min_def) linarith
    with 1 show ?thesis by (simp add: py_slice_def clamp_bound_def Let_def)
  next
    case 2
    then have "clamp_bound (Suc (length xs)) j \<le> clamp_bound (Suc (length xs)) i"
      by (simp add: clamp_bound_def)
    then show ?thesis by (simp add: py_slice_def Let_def)
  qed
qed

text \<open>
  C10. A text that \<^verbatim>\<open>parse_level\<close> accepts has a header of two integers; the tiles are
  the parsed rows of the slice \<^verbatim>\<open>lines[1:length+1]\<close>, \<^verbatim>\<open>length\<close> is the number of rows of
  that slice and \<^verbatim>\<open>width\<close> the length of its first row. The header's width takes no part:
  the same lines under a header with the same length and any other width parse to the
  same state. Rows of different lengths are accepted, as \<^verbatim>\<open>ragged_text\<close> shows.
\<close>

theorem parse_level_dimensions:
  assumes "parse_level txt = Some s"
  shows "(\<exists>len wid. map_raise py_int (split (hd (splitlines txt))) = Inr [len, wid]
      \<and> map_raise (map_raise parse_tile) (py_slice (splitlines txt) 1 (len + 1)) = Inr (tiles s)
      \<and> py_slice (splitlines txt) 1 (len + 1) \<noteq> []
      \<and> length_st s = int (length (py_slice (splitlines txt) 1 (len + 1)))
      \<and> width_st s = int (length (hd (py_slice (splitlines txt) 1 (len + 1))))
      \<and> (\<forall>txt' header' wid'. splitlines txt' = header' # tl (splitlines txt) \<and>
            map_raise py_int (split header') = Inr [len, wid'] \<longrightarrow> parse_level txt' = Some s))
    \<and> parse_level ragged_text = Some ragged_level
    \<and> length (tiles ragged_level ! 0) \<noteq> length (tiles ragged_level ! 1)"
proof -
  from assms have body_ok: "parse_level_try txt = Inr s"
    by (simp add: parse_level_def split: sum.splits)
  from parse_level_try_Inr [OF this] obtain header rest len wid
    where l: "splitlines txt = header # rest"
      and hd: "map_raise py_int (split header) = Inr [len, wid]"
    by blast
  let ?trows = "py_slice (header # rest) 1 (len + 1)"
  let ?brows = "py_slice (header # rest) (len + 1) (len * 2 + 1)"
  from body_ok obtain ts bs where ts: "map_raise (map_raise parse_tile) ?trows = Inr ts"
    and bs: "map_raise (map_raise parse_background_tile) ?brows = Inr bs"
    and init: "State_init ts bs = Inr s"
    unfolding parse_level_try_header [OF l hd] by (auto split: sum.splits)
  from init have ne: "ts \<noteq> []"
    and s: "s = \<lparr>tiles = ts, background = bs, length_st = int (length ts), width_st = int (length (hd ts))\<rparr>"
    by (auto simp: State_init_cases split: if_splits)
  from ts have len_ts: "length ts = length ?trows" by (rule map_raise_length)
  with ne have tne: "?trows \<noteq> []" by auto
  from ts have "list_all2 (\<lambda>row r. map_raise parse_tile row = Inr r) ?trows ts"
    by (simp only: map_raise_Inr_iff)
  with tne ne have "map_raise parse_tile (hd ?trows) = Inr (hd ts)"
    by (cases ?trows; cases ts) auto
  then have w: "length (hd ts) = length (hd ?trows)" by (rule map_raise_length)
  have indep: "parse_level txt' = Some s"
    if "splitlines txt' = header' # tl (splitlines txt) \<and>
        map_raise py_int (split header') = Inr [len, wid']" for txt' header' wid'
  proof -
    from that l have l': "splitlines txt' = header' # rest"
      and hd': "map_raise py_int (split header') = Inr [len, wid']" by simp_all
    have t: "py_slice (header' # rest) 1 (len + 1) = ?trows"
      by (rule py_slice_same_tail) simp
    have "len \<noteq> - 1"
    proof
      assume "len = - 1"
      then have "?trows = []" by (simp add: py_slice_def clamp_bound_def Let_def)
      with tne show False by simp
    qed
    then have "1 \<le> len + 1 \<or> (len + 1 < 0 \<and> len * 2 + 1 \<le> len + 1)" by linarith
    then have b: "py_slice (header' # rest) (len + 1) (len * 2 + 1) = ?brows"
      by (rule py_slice_same_tail)
    show ?thesis
      unfolding parse_level_def parse_level_try_header [OF l' hd'] t b
      by (simp add: ts bs init)
  qed
  have "parse_level ragged_text = Some ragged_level"
    by code_simp
  moreover have "length (tiles ragged_level ! 0) \<noteq> length (tiles ragged_level ! 1)"
    by (simp add: ragged_level_def)
  moreover have "map_raise py_int (split (hd (splitlines txt))) = Inr [len, wid]
      \<and> map_raise (map_raise parse_tile) (py_slice (splitlines txt) 1 (len + 1)) = Inr (tiles s)
      \<and> py_slice (splitlines txt) 1 (len + 1) \<noteq> []
      \<and> length_st s = int (length (py_slice (splitlines txt) 1 (len + 1)))
      \<and> width_st s = int (length (hd (py_slice (splitlines txt) 1 (len + 1))))
      \<and> (\<forall>txt' header' wid'. splitlines txt' = header' # tl (splitlines txt) \<and>
            map_raise py_int (split header') = Inr [len, wid'] \<longrightarrow> parse_level txt' = Some s)"
  proof (intro conjI allI impI)
    fix txt' header' wid'
    assume "splitlines txt' = header' # tl (splitlines txt) \<and>
            map_raise py_int (split header') = Inr [len, wid']"
    then show "parse_level txt' = Some s" by (rule indep)
  qed (use hd ts tne len_ts w in \<open>simp_all add: l s\<close>)
  ultimately show ?thesis by blast
qed

theorem parse_level_dimensions_witness:
  "parse_level ragged_text = Some ragged_level
   \<and> length_st ragged_level = 2 \<and> width_st ragged_level = 2
   \<and> splitlines wide_header_text = ''2 9'' # tl (splitlines ragged_text)
   \<and> map_raise py_int (split ''2 9'') = Inr [2, 9]
   \<and> parse_level wide_header_text = Some ragged_level"
proof -
  have p: "parse_level ragged_text = Some ragged_level"
    by code_simp
  have h: "map_raise py_int (split (hd (splitlines ragged_text))) = Inr [2, 2]"
    by code_simp
  have l': "splitlines wide_header_text = ''2 9'' # tl (splitlines ragged_text)"
    by code_simp
  have h': "map_raise py_int (split ''2 9'') = Inr [2, 9]"
    by code_simp
  from parse_level_dimensions [OF p] obtain len wid
    where "map_raise py_int (split (hd (splitlines ragged_text))) = Inr [len, wid]"
      and indep: "\<forall>txt' header' wid'. splitlines txt' = header' # tl (splitlines ragged_text) \<and>
            map_raise py_int (split header') = Inr [len, wid'] \<longrightarrow> parse_level txt' = Some ragged_level"
    by blast
  with h have "len = 2" by simp
  with indep l' h' have "parse_level wide_header_text = Some ragged_level" by blast
  with p l' h' show ?thesis by (simp add: ragged_level_def)
qed

section \<open>Moves raise on no rectangular grid\<close>

lemma rows_put:
  "(\<forall>row\<in>set (put a p v). int (length row) = w) \<longleftrightarrow> (\<forall>row\<in>set a. int (length row) = w)"
proof -
  have "length (put a p v ! i) = length (a ! i)" if "i < length a" for i
    using that by (cases "i = nat (vx p)") (simp_all add: put_def)
  then show ?thesis by (simp add: all_set_conv_all_nth)
qed

lemma rect_put [simp]: "rect (s\<lparr>tiles := put (tiles s) p v\<rparr>) = rect s"
  by (simp add: rect_def rows_put)

lemma rect_put_twice:
  "rect (s\<lparr>tiles := put (put (tiles s) p v) q w\<rparr>) = rect s"
  using rect_put [of "s\<lparr>tiles := put (tiles s) p v\<rparr>" q w] by simp

lemma rect_put_four:
  "rect (s\<lparr>tiles := put (put (put (put (tiles s) p v) q w) p' v') q' w'\<rparr>) = rect s"
  using rect_put_twice [of "s\<lparr>tiles := put (put (tiles s) p v) q w\<rparr>" p' v' q' w']
  by (simp add: rect_put_twice)

lemma move_player_rect:
  assumes "rect s" and "is_inbounds s p"
  shows "\<exists>ok s'. move_player s p d = Inr (ok, s') \<and> rect s' \<and>
           length_st s' = length_st s \<and> width_st s' = width_st s"
proof -
  from assms(2) have nn: "0 \<le> vx p" "0 \<le> vy p" by (simp_all add: is_inbounds_def)
  show ?thesis
    unfolding move_player_nonneg [OF nn]
    using assms by (auto simp: Let_def rect_cell_ok rect_put_twice rect_put_four)
qed

lemma move_scan_rect:
  assumes "rect sc" and "\<forall>p\<in>set ps. is_inbounds sc p"
  shows "\<exists>ok sc'. move_scan sc ps d = Inr (ok, sc') \<and> rect sc'"
  using assms
proof (induction ps arbitrary: sc)
  case Nil
  then show ?case by auto
next
  case (Cons p ps)
  from Cons.prems have inb: "is_inbounds sc p" by simp
  then have nn: "0 \<le> vx p" "0 \<le> vy p" by (simp_all add: is_inbounds_def)
  from Cons.prems(1) inb have acc: "access p (tiles sc) = Inr (cell (tiles sc) p)"
    by (simp add: access_nonneg [OF nn] rect_cell_ok)
  show ?case
  proof (cases "cell (tiles sc) p = PLAYER")
    case False
    with acc Cons show ?thesis by simp
  next
    case True
    from move_player_rect [OF Cons.prems(1) inb, of d] obtain ok s'
      where m: "move_player sc p d = Inr (ok, s')" and r: "rect s'"
        and dims: "length_st s' = length_st sc" "width_st s' = width_st sc"
      by blast
    from dims Cons.prems(2) have "\<forall>p\<in>set ps. is_inbounds s' p"
      by (simp add: is_inbounds_def)
    from Cons.IH [OF r this] acc True m r show ?thesis by (cases ok) auto
  qed
qed

lemma move_history_rect:
  assumes "history_rect h g"
  shows "\<exists>ok h' g'. move h g d = Inr (ok, h', g') \<and> history_rect h' g'"
proof -
  let ?s = "h ! last (state g)"
  from assms have ne: "state g \<noteq> []"
    and old: "\<And>a. a \<in> set (state g) \<Longrightarrow> a < length h \<and> rect (h ! a)"
    by (simp_all add: history_rect_def)
  from ne old [of "last (state g)"] have r: "rect ?s" by simp
  have "\<forall>p\<in>set (positions ?s). is_inbounds ?s p" by (simp add: set_positions)
  from move_scan_rect [OF r this, of d] obtain ok sc
    where scan: "move_scan ?s (positions ?s) d = Inr (ok, sc)" and rsc: "rect sc"
    by blast
  have keep: "a < length (h @ [sc]) \<and> rect ((h @ [sc]) ! a)" if "a \<in> set (state g)" for a
    using old [OF that] by (simp add: nth_append)
  show ?thesis
  proof (cases ok)
    case True
    with scan ne have "move h g d = Inr (True, h @ [sc], g\<lparr>state := state g @ [length h]\<rparr>)"
      by (simp add: move_cases)
    moreover have "history_rect (h @ [sc]) (g\<lparr>state := state g @ [length h]\<rparr>)"
      using keep rsc by (auto simp: history_rect_def)
    ultimately show ?thesis by blast
  next
    case False
    with scan ne have "move h g d = Inr (False, h @ [sc], g)"
      by (simp add: move_cases)
    moreover have "history_rect (h @ [sc]) g"
      using keep ne by (auto simp: history_rect_def)
    ultimately show ?thesis by blast
  qed
qed

lemma undo_history_rect:
  assumes "history_rect h g"
  shows "history_rect h (snd (undo g))"
proof (cases "length (state g) > 1")
  case False
  with assms show ?thesis by (simp add: undo_def)
next
  case True
  then have "butlast (state g) \<noteq> []" by (cases "state g" rule: rev_cases) auto
  moreover have "set (butlast (state g)) \<subseteq> set (state g)" by (auto dest: in_set_butlastD)
  ultimately show ?thesis
    using assms True by (auto simp: undo_def history_rect_def)
qed

lemma run_history_rect:
  assumes "history_rect h g"
  shows "\<exists>oks h' g'. run h g cmds = Inr (oks, h', g') \<and> history_rect h' g'"
  using assms
proof (induction cmds arbitrary: h g)
  case Nil
  then show ?case by simp
next
  case (Cons c cmds)
  show ?case
  proof (cases c)
    case (Move d)
    from move_history_rect [OF Cons.prems, of d] obtain ok h1 g1
      where m: "move h g d = Inr (ok, h1, g1)" and r: "history_rect h1 g1" by blast
    from Cons.IH [OF r] obtain oks h' g'
      where "run h1 g1 cmds = Inr (oks, h', g')" "history_rect h' g'" by blast
    with m Move show ?thesis by simp
  next
    case Undo
    obtain ok g1 where u: "undo g = (ok, g1)" by (cases "undo g")
    with undo_history_rect [OF Cons.prems] have "history_rect h g1" by simp
    from Cons.IH [OF this] obtain oks h' g'
      where "run h g1 cmds = Inr (oks, h', g')" "history_rect h' g'" by blast
    with Undo u show ?thesis by simp
  qed
qed

lemma move_box_rect:
  assumes "rect s" and "is_inbounds s p"
  shows "\<exists>ok s'. move_box s p d = Inr (ok, s')"
proof -
  from assms(2) have nn: "0 \<le> vx p" "0 \<le> vy p" by (simp_all add: is_inbounds_def)
  show ?thesis
    unfolding move_box_nonneg [OF nn]
    using assms by (auto simp: Let_def rect_cell_ok)
qed

text \<open>
  C6, as amended. From a rectangular grid, every run of moves and undos returns, and
  leaves a rectangular current grid; on it \<^verbatim>\<open>Game.move\<close> returns a boolean in every
  direction, and so do \<^verbatim>\<open>move_player\<close> and \<^verbatim>\<open>move_box\<close> from every position in bounds.
  \<^verbatim>\<open>is_inbounds\<close> is the guard that makes it so: on such a grid the positions it lets
  through are the cells of the grid.
\<close>

theorem rect_moves_never_raise:
  assumes "rect s0"
  shows "\<exists>oks h g s. run [s0] (Game_init 0) cmds = Inr (oks, h, g) \<and> current h g = Inr s \<and> rect s
           \<and> (\<forall>d. \<exists>ok h' g'. move h g d = Inr (ok, h', g'))
           \<and> (\<forall>p d. is_inbounds s p \<longrightarrow>
                 (\<exists>ok s'. move_player s p d = Inr (ok, s')) \<and>
                 (\<exists>ok s'. move_box s p d = Inr (ok, s')))"
proof -
  from assms have "history_rect [s0] (Game_init 0)"
    by (simp add: history_rect_def Game_init_def)
  from run_history_rect [OF this, of cmds] obtain oks h g
    where r: "run [s0] (Game_init 0) cmds = Inr (oks, h, g)" and hr: "history_rect h g"
    by blast
  let ?s = "h ! last (state g)"
  from hr have c: "current h g = Inr ?s" and rs: "rect ?s"
    by (simp_all add: history_rect_def current_cases)
  have m: "\<forall>d. \<exists>ok h' g'. move h g d = Inr (ok, h', g')"
    using move_history_rect [OF hr] by blast
  have p: "\<forall>p d. is_inbounds ?s p \<longrightarrow>
                 (\<exists>ok s'. move_player ?s p d = Inr (ok, s')) \<and>
                 (\<exists>ok s'. move_box ?s p d = Inr (ok, s'))"
    using move_player_rect [OF rs] move_box_rect [OF rs] by blast
  from r c rs m p show ?thesis by blast
qed

theorem rect_moves_never_raise_witness:
  "rect two_boxes_level
   \<and> run [two_boxes_level] (Game_init 0) [Move RIGHT, Move LEFT, Undo] =
        Inr ([False, False, False], [two_boxes_level, two_boxes_level, two_boxes_level], Game_init 0)
   \<and> current [two_boxes_level, two_boxes_level, two_boxes_level] (Game_init 0) = Inr two_boxes_level
   \<and> move [two_boxes_level, two_boxes_level, two_boxes_level] (Game_init 0) UP =
        Inr (False, [two_boxes_level, two_boxes_level, two_boxes_level, two_boxes_level], Game_init 0)
   \<and> is_inbounds two_boxes_level (Vector2 0 2)
   \<and> move_box two_boxes_level (Vector2 0 2) RIGHT =
        Inr (True, two_boxes_level\<lparr>tiles := [[PLAYER, BOX, EMPTY, BOX]]\<rparr>)
   \<and> move_player two_boxes_level (Vector2 0 2) DOWN = Inr (False, two_boxes_level)"
proof -
  have r: "rect two_boxes_level"
    by (simp add: rect_def two_boxes_level_def)
  have e: "run [two_boxes_level] (Game_init 0) [Move RIGHT, Move LEFT, Undo] =
        Inr ([False, False, False], [two_boxes_level, two_boxes_level, two_boxes_level], Game_init 0)"
    "current [two_boxes_level, two_boxes_level, two_boxes_level] (Game_init 0) = Inr two_boxes_level"
    "move [two_boxes_level, two_boxes_level, two_boxes_level] (Game_init 0) UP =
        Inr (False, [two_boxes_level, two_boxes_level, two_boxes_level, two_boxes_level], Game_init 0)"
    "is_inbounds two_boxes_level (Vector2 0 2)"
    "move_box two_boxes_level (Vector2 0 2) RIGHT =
        Inr (True, two_boxes_level\<lparr>tiles := [[PLAYER, BOX, EMPTY, BOX]]\<rparr>)"
    "move_player two_boxes_level (Vector2 0 2) DOWN = Inr (False, two_boxes_level)"
    by code_simp+
  from rect_moves_never_raise [OF r, of "[Move RIGHT, Move LEFT, Undo]"] r e
  show ?thesis by simp
qed

text \<open>
  C6, as stated, fails on a level that \<^verbatim>\<open>parse_level\<close> accepts. On \<^verbatim>\<open>ragged_level\<close> the
  player stands at row 0, column 1, and the cell below passes \<^verbatim>\<open>is_inbounds\<close>, which
  compares the column with the length of the first row. Row 1 has one tile, so that
  reading the cell in \<^verbatim>\<open>move_player\<close> raises \<^verbatim>\<open>IndexError\<close>, and the exception leaves
  \<^verbatim>\<open>Game.move\<close>.
\<close>

theorem ragged_level_move_raises:
  "parse_level ragged_text = Some ragged_level
   \<and> access (Vector2 0 1) (tiles ragged_level) = Inr PLAYER
   \<and> is_inbounds ragged_level (add (Vector2 0 1) DOWN)
   \<and> move_player ragged_level (Vector2 0 1) DOWN = Inl IndexError
   \<and> move [ragged_level] (Game_init 0) DOWN = Inl IndexError"
  by code_simp

end
